theory Spec2Isabelle
  imports Main "HOL-Library.Sublist"
begin

section \<open>Text, buffers and iterators\<close>

text \<open>
  \<^verbatim>\<open>lineup-substitution.c\<close> edits a \<^verbatim>\<open>GtkTextBuffer\<close> through
  \<^verbatim>\<open>GtkTextIter\<close> positions.  The buffer is modelled as the list of its lines
  (the paragraph delimiters between them are implicit), a line as the list of its
  Unicode code points, and an iterator as a pair of a line index and a code point
  offset within that line.  The model is of command line texts \<^verbatim>\<open>search_text\<close>
  and \<^verbatim>\<open>replacement\<close> that are \<open>single_line\<close>, with no paragraph delimiter in
  them: an inserted text stays in its line and a match lies within one line, whereas
  a \<^verbatim>\<open>GtkTextBuffer\<close> starts a new line at a delimiter that is inserted, and
  \<^verbatim>\<open>GtkSourceSearchContext\<close> matches a text with a delimiter across lines.  A
  statement that reads the line of a replacement afterwards says so in its
  hypotheses.  The buffer and the view of the
  \<^verbatim>\<open>Sub\<close> structure are not fields of the record: the buffer is passed to each
  function and returned by those that edit it, and the view only serves to compute
  visual columns.
\<close>

type_synonym gunichar = nat

type_synonym ustring = "gunichar list"

type_synonym GtkTextBuffer = "ustring list"

type_synonym GtkTextIter = "nat \<times> nat"

abbreviation TAB :: gunichar where "TAB \<equiv> 9"

abbreviation SPACE :: gunichar where "SPACE \<equiv> 32"

abbreviation LPAREN :: gunichar where "LPAREN \<equiv> 40"


definition line_terminator :: "gunichar \<Rightarrow> bool" where
  \<comment> \<open>the paragraph delimiters of \<^verbatim>\<open>GtkTextBuffer\<close>: line feed, carriage return
      (alone or before a line feed) and U+2029\<close>
  "line_terminator c = (c = 10 \<or> c = 13 \<or> c = 8233)"

definition single_line :: "ustring \<Rightarrow> bool" where
  "single_line s = (\<forall>c\<in>set s. \<not> line_terminator c)"

definition codepoints :: "string \<Rightarrow> ustring" where
  \<comment> \<open>an ASCII literal as code points\<close>
  "codepoints s = map of_char s"

record Sub =
  search_text :: ustring
  replacement :: ustring
  file_location :: ustring   \<comment> \<open>the location of the \<^verbatim>\<open>GtkSourceFile\<close>\<close>

datatype error =
    Assert_starts_line          \<comment> \<open>\<^verbatim>\<open>g_assert (gtk_text_iter_starts_line (iter))\<close>\<close>
  | Assert_not_is_end           \<comment> \<open>\<^verbatim>\<open>g_assert (!gtk_text_iter_is_end (&start_text_iter))\<close>\<close>
  | Assert_not_ends_line        \<comment> \<open>\<^verbatim>\<open>g_assert (!gtk_text_iter_ends_line (&start_text_iter))\<close>\<close>
  | Assert_new_length_nonneg    \<comment> \<open>\<^verbatim>\<open>g_assert_cmpint (new_length, >=, 0)\<close>\<close>
  | Assert_sub_new              \<comment> \<open>one of the assertions of \<^verbatim>\<open>sub_new\<close>\<close>
  | Load_error                  \<comment> \<open>\<^verbatim>\<open>g_error ("Error when loading file: %s", ...)\<close>\<close>
  | Save_error                  \<comment> \<open>\<^verbatim>\<open>g_error ("Error when saving file: %s", ...)\<close>\<close>

subsection \<open>The library calls the program makes\<close>

text \<open>
  GLib, GTK+ and GtkSourceView are not part of the repository; the calls the program
  makes are modelled after their reference documentation, on the line representation.
\<close>

definition g_unichar_isspace :: "gunichar \<Rightarrow> bool" where
  \<comment> \<open>tab, line feed, form feed, carriage return, and the Unicode classes Zs, Zl, Zp\<close>
  "g_unichar_isspace c =
     (c = 9 \<or> c = 10 \<or> c = 12 \<or> c = 13 \<or> c = 32 \<or> c = 160 \<or> c = 5760 \<or>
      (8192 \<le> c \<and> c \<le> 8202) \<or> c = 8232 \<or> c = 8233 \<or> c = 8239 \<or> c = 8287 \<or>
      c = 12288)"

definition g_utf8_strlen :: "ustring \<Rightarrow> int" where
  "g_utf8_strlen s = int (length s)"

definition g_strnfill :: "nat \<Rightarrow> gunichar \<Rightarrow> ustring" where
  "g_strnfill n c = replicate n c"

definition line_at :: "GtkTextBuffer \<Rightarrow> nat \<Rightarrow> ustring" where
  "line_at buf l = (if l < length buf then buf ! l else [])"

definition gtk_text_iter_starts_line :: "GtkTextIter \<Rightarrow> bool" where
  "gtk_text_iter_starts_line it = (snd it = 0)"

definition gtk_text_iter_ends_line :: "GtkTextBuffer \<Rightarrow> GtkTextIter \<Rightarrow> bool" where
  \<comment> \<open>at the paragraph delimiter of its line, or at the end of the buffer\<close>
  "gtk_text_iter_ends_line buf it = (length (line_at buf (fst it)) \<le> snd it)"

definition gtk_text_iter_is_end :: "GtkTextBuffer \<Rightarrow> GtkTextIter \<Rightarrow> bool" where
  "gtk_text_iter_is_end buf it =
     (length buf \<le> fst it + 1 \<and> length (line_at buf (fst it)) \<le> snd it)"

definition gtk_text_iter_get_char :: "GtkTextBuffer \<Rightarrow> GtkTextIter \<Rightarrow> gunichar" where
  \<comment> \<open>0 is what GTK+ returns at the end of the buffer\<close>
  "gtk_text_iter_get_char buf it =
     (if snd it < length (line_at buf (fst it)) then line_at buf (fst it) ! snd it else 0)"

definition gtk_text_iter_forward_char :: "GtkTextIter \<Rightarrow> GtkTextIter" where
  \<comment> \<open>only called on an iterator that is not at the end of its line\<close>
  "gtk_text_iter_forward_char it = (fst it, snd it + 1)"

definition gtk_text_iter_set_line_offset :: "GtkTextIter \<Rightarrow> nat \<Rightarrow> GtkTextIter" where
  "gtk_text_iter_set_line_offset it n = (fst it, n)"

definition gtk_text_iter_forward_to_line_end :: "GtkTextBuffer \<Rightarrow> GtkTextIter \<Rightarrow> GtkTextIter" where
  \<comment> \<open>only called on an iterator that is not at the end of its line\<close>
  "gtk_text_iter_forward_to_line_end buf it = (fst it, length (line_at buf (fst it)))"

definition gtk_text_iter_forward_line :: "GtkTextBuffer \<Rightarrow> GtkTextIter \<Rightarrow> GtkTextIter \<times> bool" where
  \<comment> \<open>to the start of the next line; on the last line, to the end of that line and
      FALSE; FALSE also when the iterator arrives at the end of the buffer\<close>
  "gtk_text_iter_forward_line buf it =
     (if fst it + 1 < length buf
      then ((fst it + 1, 0), \<not> gtk_text_iter_is_end buf (fst it + 1, 0))
      else ((fst it, length (line_at buf (fst it))), False))"

fun visual_column_from :: "nat \<Rightarrow> ustring \<Rightarrow> nat" where
  "visual_column_from column [] = column"
| "visual_column_from column (c # cs) =
     visual_column_from (if c = TAB then column + (8 - column mod 8) else column + 1) cs"

definition gtk_source_view_get_visual_column :: "GtkTextBuffer \<Rightarrow> GtkTextIter \<Rightarrow> int" where
  \<comment> \<open>walks from the start of the line to the iterator; the tab width of a new view is 8\<close>
  "gtk_source_view_get_visual_column buf it =
     int (visual_column_from 0 (take (snd it) (line_at buf (fst it))))"

fun find_text :: "ustring \<Rightarrow> ustring \<Rightarrow> nat option" where
  \<comment> \<open>index of the first occurrence of a text in a line\<close>
  "find_text pat [] = (if pat = [] then Some 0 else None)"
| "find_text pat (c # cs) =
     (if prefix pat (c # cs) then Some 0 else map_option Suc (find_text pat cs))"

definition gtk_text_iter_forward_search ::
  "GtkTextBuffer \<Rightarrow> GtkTextIter \<Rightarrow> ustring \<Rightarrow> GtkTextIter \<Rightarrow> (GtkTextIter \<times> GtkTextIter) option" where
  \<comment> \<open>used with a limit on the line of the iterator: nothing is found from the limit
      on, and a match has to end at or before the limit\<close>
  "gtk_text_iter_forward_search buf it str limit =
     (if snd limit \<le> snd it then None
      else case find_text str (drop (snd it) (line_at buf (fst it))) of
             None \<Rightarrow> None
           | Some k \<Rightarrow>
               if snd it + k + length str \<le> snd limit
               then Some ((fst it, snd it + k), (fst it, snd it + k + length str))
               else None)"

definition gtk_text_buffer_delete ::
  "GtkTextBuffer \<Rightarrow> GtkTextIter \<Rightarrow> GtkTextIter \<Rightarrow> GtkTextBuffer \<times> GtkTextIter" where
  \<comment> \<open>both iterators are on one line in every call of the program; both are
      revalidated to the place of the deletion\<close>
  "gtk_text_buffer_delete buf start end_iter =
     (buf[fst start := take (snd start) (line_at buf (fst start)) @
                       drop (snd end_iter) (line_at buf (fst start))],
      start)"

definition gtk_text_buffer_insert ::
  "GtkTextBuffer \<Rightarrow> GtkTextIter \<Rightarrow> ustring \<Rightarrow> GtkTextBuffer \<times> GtkTextIter" where
  \<comment> \<open>of a \<open>single_line\<close> text, which stays in the line of the iterator; the
      iterator is revalidated to the end of the inserted text\<close>
  "gtk_text_buffer_insert buf it txt =
     (buf[fst it := take (snd it) (line_at buf (fst it)) @ txt @
                    drop (snd it) (line_at buf (fst it))],
      (fst it, snd it + length txt))"

function search_lines :: "GtkTextBuffer \<Rightarrow> ustring \<Rightarrow> nat \<Rightarrow> nat \<Rightarrow> (GtkTextIter \<times> GtkTextIter) option" where
  "search_lines buf str l off =
     (if l < length buf
      then case find_text str (drop off (buf ! l)) of
             Some k \<Rightarrow> Some ((l, off + k), (l, off + k + length str))
           | None \<Rightarrow> search_lines buf str (l + 1) 0
      else None)"
  by pat_completeness auto

termination
  by (relation "measure (\<lambda>(buf, str, l, off). length buf - l)") auto

declare search_lines.simps [simp del]

definition gtk_source_search_context_forward ::
  "GtkTextBuffer \<Rightarrow> ustring \<Rightarrow> GtkTextIter \<Rightarrow> (GtkTextIter \<times> GtkTextIter) option" where
  \<comment> \<open>case sensitive, literal, no wrap around: the first occurrence at or after the
      iterator; an empty search text is no search text.  The occurrences of a
      \<open>single_line\<close> text lie within a line each\<close>
  "gtk_source_search_context_forward buf str iter =
     (if str = [] then None else search_lines buf str (fst iter) (snd iter))"

definition gtk_source_search_context_replace ::
  "GtkTextBuffer \<Rightarrow> ustring \<Rightarrow> GtkTextIter \<Rightarrow> GtkTextIter \<Rightarrow> ustring \<Rightarrow>
     GtkTextBuffer \<times> GtkTextIter" where
  \<comment> \<open>when the two iterators delimit the occurrence that a search from the first one
      finds, deletes it and inserts the replacement in its place; otherwise leaves
      the buffer alone.  Regular expressions are off, so no error is set.  The
      second component is where the mark that \<^verbatim>\<open>replace\<close> created at
      \<^verbatim>\<open>match_end\<close> is afterwards: the mark has right gravity, the deletion takes
      it to the start of the match and the insertion there pushes it to the end of
      the inserted text\<close>
  "gtk_source_search_context_replace buf str match_start match_end repl =
     (if gtk_source_search_context_forward buf str match_start \<noteq> Some (match_start, match_end)
      then (buf, match_end)
      else case gtk_text_buffer_delete buf match_start match_end of
             (buf1, start) \<Rightarrow> gtk_text_buffer_insert buf1 start repl)"

subsection \<open>The environment of the process\<close>










section \<open>The functions of lineup-substitution.c\<close>



definition get_parenthesis_column :: "GtkTextBuffer \<Rightarrow> GtkTextIter \<Rightarrow> int" where
  "get_parenthesis_column buf iter =
     (let limit = (if \<not> gtk_text_iter_ends_line buf iter
                   then gtk_text_iter_forward_to_line_end buf iter else iter)
      in case gtk_text_iter_forward_search buf iter [LPAREN] limit of
           Some (match_start, match_end) \<Rightarrow> gtk_source_view_get_visual_column buf match_end
         | None \<Rightarrow> - 1)"

function text_start_loop :: "GtkTextBuffer \<Rightarrow> GtkTextIter \<Rightarrow> GtkTextIter" where
  "text_start_loop buf iter =
     (if \<not> gtk_text_iter_is_end buf iter \<and> \<not> gtk_text_iter_ends_line buf iter
      then (let cur_char = gtk_text_iter_get_char buf iter
            in if \<not> g_unichar_isspace cur_char then iter
               else text_start_loop buf (gtk_text_iter_forward_char iter))
      else iter)"
  by pat_completeness auto

termination
  by (relation "measure (\<lambda>(buf, iter). length (line_at buf (fst iter)) - snd iter)")
     (auto simp: gtk_text_iter_ends_line_def gtk_text_iter_forward_char_def)

declare text_start_loop.simps [simp del]

definition forward_iter_to_text_start :: "GtkTextBuffer \<Rightarrow> GtkTextIter \<Rightarrow> error + GtkTextIter" where
  "forward_iter_to_text_start buf iter =
     (if \<not> gtk_text_iter_starts_line iter then Inl Assert_starts_line
      else Inr (text_start_loop buf iter))"

definition get_text_start_column :: "GtkTextBuffer \<Rightarrow> GtkTextIter \<Rightarrow> error + int" where
  "get_text_start_column buf start_iter =
     (if \<not> gtk_text_iter_starts_line start_iter then Inl Assert_starts_line
      else case forward_iter_to_text_start buf start_iter of
             Inl e \<Rightarrow> Inl e
           | Inr iter \<Rightarrow>
               if gtk_text_iter_is_end buf iter \<or> gtk_text_iter_ends_line buf iter
               then Inr (- 1)
               else Inr (gtk_source_view_get_visual_column buf iter))"

function contains_tab_loop :: "GtkTextBuffer \<Rightarrow> GtkTextIter \<Rightarrow> bool" where
  "contains_tab_loop buf iter =
     (if \<not> gtk_text_iter_is_end buf iter \<and> \<not> gtk_text_iter_ends_line buf iter
      then (let cur_char = gtk_text_iter_get_char buf iter
            in if cur_char = TAB then True
               else if \<not> g_unichar_isspace cur_char then False
               else contains_tab_loop buf (gtk_text_iter_forward_char iter))
      else False)"
  by pat_completeness auto

termination
  by (relation "measure (\<lambda>(buf, iter). length (line_at buf (fst iter)) - snd iter)")
     (auto simp: gtk_text_iter_ends_line_def gtk_text_iter_forward_char_def)

declare contains_tab_loop.simps [simp del]

definition indentation_contains_tab :: "GtkTextBuffer \<Rightarrow> GtkTextIter \<Rightarrow> bool" where
  "indentation_contains_tab buf line_iter =
     contains_tab_loop buf (gtk_text_iter_set_line_offset line_iter 0)"

definition adjust_alignment ::
  "Sub \<Rightarrow> GtkTextBuffer \<Rightarrow> GtkTextIter \<Rightarrow> error + (GtkTextBuffer \<times> GtkTextIter)" where
  "adjust_alignment sub buf iter =
     (if \<not> gtk_text_iter_starts_line iter then Inl Assert_starts_line
      else case forward_iter_to_text_start buf iter of
        Inl e \<Rightarrow> Inl e
      | Inr start_text_iter \<Rightarrow>
          if gtk_text_iter_is_end buf start_text_iter then Inl Assert_not_is_end
          else if gtk_text_iter_ends_line buf start_text_iter then Inl Assert_not_ends_line
          else case get_text_start_column buf iter of
            Inl e \<Rightarrow> Inl e
          | Inr text_start_column \<Rightarrow>
              let new_length = text_start_column - g_utf8_strlen (search_text sub)
                                 + g_utf8_strlen (replacement sub)
              in if \<not> 0 \<le> new_length then Inl Assert_new_length_nonneg
                 else
                   let tabs = indentation_contains_tab buf iter;
                       (buf1, iter1) = gtk_text_buffer_delete buf iter start_text_iter;
                       indentation =
                         (if tabs
                          then g_strnfill (nat (new_length div 8)) TAB @
                               g_strnfill (nat (new_length mod 8)) SPACE
                          else g_strnfill (nat new_length) SPACE);
                       (buf2, iter2) = gtk_text_buffer_insert buf1 iter1 indentation
                   in Inr (buf2, gtk_text_iter_set_line_offset iter2 0))"

function replace_loop ::
  "Sub \<Rightarrow> int \<Rightarrow> GtkTextBuffer \<Rightarrow> GtkTextIter \<Rightarrow> error + GtkTextBuffer" where
  \<comment> \<open>\<^verbatim>\<open>while (gtk_text_iter_forward_line (&next_line))\<close> of \<^verbatim>\<open>replace\<close>\<close>
  "replace_loop sub parenthesis_column buf next_line =
     (case gtk_text_iter_forward_line buf next_line of
        (next_line1, False) \<Rightarrow> Inr buf
      | (next_line1, True) \<Rightarrow>
          (case get_text_start_column buf next_line1 of
             Inl e \<Rightarrow> Inl e
           | Inr text_start_column \<Rightarrow>
               if text_start_column = parenthesis_column
               then (case adjust_alignment sub buf next_line1 of
                       Inl e \<Rightarrow> Inl e
                     | Inr (buf1, next_line2) \<Rightarrow>
                         replace_loop sub parenthesis_column buf1 next_line2)
               else Inr buf))"
  by pat_completeness auto

definition replace ::
  "Sub \<Rightarrow> GtkTextBuffer \<Rightarrow> GtkTextIter \<Rightarrow> GtkTextIter \<Rightarrow> error + (GtkTextBuffer \<times> GtkTextIter)" where
  \<comment> \<open>returns the buffer and \<^verbatim>\<open>match_end\<close>, which it sets to the mark\<close>
  "replace sub buf match_start match_end =
     (let parenthesis_column = get_parenthesis_column buf match_end
      in case gtk_source_search_context_replace buf (search_text sub) match_start match_end
                (replacement sub) of
           (buf1, mark) \<Rightarrow>
             if parenthesis_column \<noteq> - 1
             then (case replace_loop sub parenthesis_column buf1 mark of
                     Inl e \<Rightarrow> Inl e
                   | Inr buf2 \<Rightarrow> Inr (buf2, mark))
             else Inr (buf1, mark))"

function do_substitution_loop :: "Sub \<Rightarrow> GtkTextBuffer \<Rightarrow> GtkTextIter \<Rightarrow> error + GtkTextBuffer" where
  \<comment> \<open>\<^verbatim>\<open>while (gtk_source_search_context_forward (...))\<close> of \<^verbatim>\<open>do_substitution\<close>\<close>
  "do_substitution_loop sub buf iter =
     (case gtk_source_search_context_forward buf (search_text sub) iter of
        None \<Rightarrow> Inr buf
      | Some (match_start, match_end) \<Rightarrow>
          (case replace sub buf match_start match_end of
             Inl e \<Rightarrow> Inl e
           | Inr (buf1, match_end1) \<Rightarrow> do_substitution_loop sub buf1 match_end1))"
  by pat_completeness auto

definition do_substitution :: "Sub \<Rightarrow> GtkTextBuffer \<Rightarrow> error + GtkTextBuffer" where
  \<comment> \<open>the search starts at \<^verbatim>\<open>gtk_text_buffer_get_start_iter\<close>\<close>
  "do_substitution sub buf = do_substitution_loop sub buf (0, 0)"




subsection \<open>Lines\<close>

text \<open>
  What the iterator loops compute, on one line: the leading whitespace run of the
  line, the column where its text starts (\<open>- 1\<close> for a line with no text), and the
  line after \<^verbatim>\<open>adjust_alignment\<close>.
\<close>

definition leading_whitespace :: "ustring \<Rightarrow> ustring" where
  "leading_whitespace line = takeWhile g_unichar_isspace line"

definition line_text :: "ustring \<Rightarrow> ustring" where
  "line_text line = dropWhile g_unichar_isspace line"

definition text_start_column_of :: "ustring \<Rightarrow> int" where
  "text_start_column_of line =
     (if line_text line = [] then - 1
      else int (visual_column_from 0 (leading_whitespace line)))"

definition new_length_of :: "Sub \<Rightarrow> ustring \<Rightarrow> int" where
  "new_length_of sub line =
     text_start_column_of line - int (length (search_text sub)) + int (length (replacement sub))"

definition new_indentation :: "bool \<Rightarrow> int \<Rightarrow> ustring" where
  "new_indentation tabs n =
     (if tabs then replicate (nat (n div 8)) TAB @ replicate (nat (n mod 8)) SPACE
      else replicate (nat n) SPACE)"

definition realigned_line :: "Sub \<Rightarrow> ustring \<Rightarrow> ustring" where
  "realigned_line sub line =
     new_indentation (TAB \<in> set (leading_whitespace line)) (new_length_of sub line) @
     line_text line"

definition continuation_block :: "int \<Rightarrow> GtkTextBuffer \<Rightarrow> nat \<Rightarrow> ustring list" where
  \<comment> \<open>the lines right after line \<open>l\<close> whose text starts at the column, up to the
      first line that has no text or starts elsewhere\<close>
  "continuation_block pc buf l =
     takeWhile (\<lambda>ln. text_start_column_of ln = pc) (drop (l + 1) buf)"

section \<open>What the functions compute\<close>

lemma text_start_loop_eq:
  "text_start_loop buf (l, off) =
     (l, off + length (takeWhile g_unichar_isspace (drop off (line_at buf l))))"
proof (induction buf "(l, off)" arbitrary: off rule: text_start_loop.induct)
  case (1 buf)
  show ?case
  proof (cases "off < length (line_at buf l)")
    case True
    then have d: "drop off (line_at buf l) = line_at buf l ! off # drop (Suc off) (line_at buf l)"
      by (simp add: Cons_nth_drop_Suc)
    from True have ne: "\<not> gtk_text_iter_is_end buf (l, off)" "\<not> gtk_text_iter_ends_line buf (l, off)"
      by (simp_all add: gtk_text_iter_is_end_def gtk_text_iter_ends_line_def)
    have gc: "gtk_text_iter_get_char buf (l, off) = line_at buf l ! off"
      using True by (simp add: gtk_text_iter_get_char_def)
    show ?thesis
    proof (cases "g_unichar_isspace (line_at buf l ! off)")
      case True
      have "text_start_loop buf (l, off) = text_start_loop buf (l, Suc off)"
        using ne gc True by (subst text_start_loop.simps) (simp add: gtk_text_iter_forward_char_def)
      also have "\<dots> = (l, Suc off + length (takeWhile g_unichar_isspace (drop (Suc off) (line_at buf l))))"
        using "1"[of "line_at buf l ! off" "Suc off"] ne gc True
        by (simp add: gtk_text_iter_forward_char_def)
      finally show ?thesis using d True by simp
    next
      case False
      then show ?thesis using ne gc d by (subst text_start_loop.simps) simp
    qed
  next
    case False
    then have "gtk_text_iter_ends_line buf (l, off)"
      by (simp add: gtk_text_iter_ends_line_def)
    with False show ?thesis by (subst text_start_loop.simps) simp
  qed
qed

lemma contains_tab_loop_eq:
  "contains_tab_loop buf (l, off) =
     (TAB \<in> set (takeWhile g_unichar_isspace (drop off (line_at buf l))))"
proof (induction buf "(l, off)" arbitrary: off rule: contains_tab_loop.induct)
  case (1 buf)
  show ?case
  proof (cases "off < length (line_at buf l)")
    case True
    then have d: "drop off (line_at buf l) = line_at buf l ! off # drop (Suc off) (line_at buf l)"
      by (simp add: Cons_nth_drop_Suc)
    from True have ne: "\<not> gtk_text_iter_is_end buf (l, off)" "\<not> gtk_text_iter_ends_line buf (l, off)"
      by (simp_all add: gtk_text_iter_is_end_def gtk_text_iter_ends_line_def)
    have gc: "gtk_text_iter_get_char buf (l, off) = line_at buf l ! off"
      using True by (simp add: gtk_text_iter_get_char_def)
    have sp: "g_unichar_isspace TAB" by (simp add: g_unichar_isspace_def)
    show ?thesis
    proof (cases "line_at buf l ! off = TAB")
      case True
      then show ?thesis using ne gc d sp by (subst contains_tab_loop.simps) simp
    next
      case nt: False
      show ?thesis
      proof (cases "g_unichar_isspace (line_at buf l ! off)")
        case True
        have "contains_tab_loop buf (l, off) = contains_tab_loop buf (l, Suc off)"
          using ne gc True nt by (subst contains_tab_loop.simps) (simp add: gtk_text_iter_forward_char_def)
        also have "\<dots> = (TAB \<in> set (takeWhile g_unichar_isspace (drop (Suc off) (line_at buf l))))"
          using "1"[of "line_at buf l ! off" "Suc off"] ne gc True nt
          by (simp add: gtk_text_iter_forward_char_def)
        finally show ?thesis using d True nt by simp
      next
        case False
        then show ?thesis using ne gc d nt by (subst contains_tab_loop.simps) simp
      qed
    qed
  next
    case False
    then have "gtk_text_iter_ends_line buf (l, off)"
      by (simp add: gtk_text_iter_ends_line_def)
    with False show ?thesis by (subst contains_tab_loop.simps) simp
  qed
qed

lemma forward_iter_to_text_start_eq:
  "forward_iter_to_text_start buf (l, 0) =
     Inr (l, length (leading_whitespace (line_at buf l)))"
  by (simp add: forward_iter_to_text_start_def gtk_text_iter_starts_line_def
      text_start_loop_eq leading_whitespace_def)

lemma length_leading_whitespace:
  "(length line \<le> length (leading_whitespace line)) = (line_text line = [])"
proof -
  have "length (leading_whitespace line) + length (line_text line) = length line"
    unfolding leading_whitespace_def line_text_def
    by (metis length_append takeWhile_dropWhile_id)
  then show ?thesis by (cases "line_text line") auto
qed

lemma take_leading_whitespace:
  "take (length (leading_whitespace line)) line = leading_whitespace line"
  unfolding leading_whitespace_def by (induction line) auto

lemma drop_leading_whitespace:
  "drop (length (leading_whitespace line)) line = line_text line"
  unfolding leading_whitespace_def line_text_def by (induction line) auto

lemma get_text_start_column_eq:
  "get_text_start_column buf (l, 0) = Inr (text_start_column_of (line_at buf l))"
  by (simp add: get_text_start_column_def gtk_text_iter_starts_line_def
      forward_iter_to_text_start_eq gtk_text_iter_is_end_def gtk_text_iter_ends_line_def
      length_leading_whitespace text_start_column_of_def
      gtk_source_view_get_visual_column_def take_leading_whitespace)

lemma indentation_contains_tab_eq:
  "indentation_contains_tab buf (l, off) = (TAB \<in> set (leading_whitespace (line_at buf l)))"
  by (simp add: indentation_contains_tab_def gtk_text_iter_set_line_offset_def
      contains_tab_loop_eq leading_whitespace_def)

lemma adjust_alignment_blank:
  assumes "line_text (line_at buf l) = []"
  shows "adjust_alignment sub buf (l, 0) =
           Inl (if length buf \<le> l + 1 then Assert_not_is_end else Assert_not_ends_line)"
  using assms
  by (simp add: adjust_alignment_def gtk_text_iter_starts_line_def
      forward_iter_to_text_start_eq gtk_text_iter_is_end_def gtk_text_iter_ends_line_def
      length_leading_whitespace)

lemma adjust_alignment_negative:
  assumes "line_text (line_at buf l) \<noteq> []" and "new_length_of sub (line_at buf l) < 0"
  shows "adjust_alignment sub buf (l, 0) = Inl Assert_new_length_nonneg"
  using assms
  by (simp add: adjust_alignment_def gtk_text_iter_starts_line_def
      forward_iter_to_text_start_eq gtk_text_iter_is_end_def gtk_text_iter_ends_line_def
      length_leading_whitespace get_text_start_column_eq new_length_of_def g_utf8_strlen_def)

lemma adjust_alignment_realigns:
  assumes "line_text (line_at buf l) \<noteq> []" and "0 \<le> new_length_of sub (line_at buf l)"
  shows "adjust_alignment sub buf (l, 0) =
           Inr (buf[l := realigned_line sub (line_at buf l)], (l, 0))"
proof -
  let ?line = "line_at buf l"
  let ?k = "length (leading_whitespace ?line)"
  have del: "gtk_text_buffer_delete buf (l, 0) (l, ?k) = (buf[l := line_text ?line], (l, 0))"
    by (simp add: gtk_text_buffer_delete_def drop_leading_whitespace)
  have ins: "gtk_text_buffer_insert (buf[l := line_text ?line]) (l, 0) ind =
               (buf[l := ind @ line_text ?line], (l, length ind))" for ind
    by (simp add: gtk_text_buffer_insert_def line_at_def list_update_beyond)
  have False if "\<not> l < length buf"
    using that assms(1) by (simp add: line_at_def line_text_def)
  define n where "n = new_length_of sub ?line"
  have n: "text_start_column_of ?line - g_utf8_strlen (search_text sub)
                 + g_utf8_strlen (replacement sub) = n"
    by (simp add: n_def new_length_of_def g_utf8_strlen_def)
  have n0: "0 \<le> n" using assms(2) by (simp add: n_def)
  have fwd: "forward_iter_to_text_start buf (l, 0) = Inr (l, ?k)"
    by (rule forward_iter_to_text_start_eq)
  have ne: "\<not> gtk_text_iter_is_end buf (l, ?k)" "\<not> gtk_text_iter_ends_line buf (l, ?k)"
    using assms(1)
    by (simp_all add: gtk_text_iter_is_end_def gtk_text_iter_ends_line_def length_leading_whitespace)
  have "adjust_alignment sub buf (l, 0) =
          Inr (buf[l := new_indentation (TAB \<in> set (leading_whitespace ?line)) n @ line_text ?line],
               (l, 0))"
    unfolding adjust_alignment_def
    by (simp only: fwd ne get_text_start_column_eq n n0 indentation_contains_tab_eq del ins
        sum.case prod.case Let_def if_True if_False not_True_eq_False not_False_eq_True
        gtk_text_iter_starts_line_def snd_conv fst_conv g_strnfill_def
        gtk_text_iter_set_line_offset_def new_indentation_def) simp
  then show ?thesis by (simp add: realigned_line_def n_def)
qed

lemma adjust_alignment_eq:
  "adjust_alignment sub buf (l, 0) =
     (if line_text (line_at buf l) = []
      then Inl (if length buf \<le> l + 1 then Assert_not_is_end else Assert_not_ends_line)
      else if new_length_of sub (line_at buf l) < 0 then Inl Assert_new_length_nonneg
      else Inr (buf[l := realigned_line sub (line_at buf l)], (l, 0)))"
  by (simp add: adjust_alignment_blank adjust_alignment_negative adjust_alignment_realigns
      del: One_nat_def)

lemma forward_line_True:
  assumes "gtk_text_iter_forward_line buf it = (nl, True)"
  shows "nl = (fst it + 1, 0)" and "fst it + 1 < length buf"
    and "\<not> (fst it + 2 = length buf \<and> buf ! (fst it + 1) = [])"
  using assms
  by (auto simp: gtk_text_iter_forward_line_def gtk_text_iter_is_end_def line_at_def
      split: if_splits)

lemma adjust_alignment_Inr:
  assumes "adjust_alignment sub buf (l, 0) = Inr (buf1, it1)"
  shows "length buf1 = length buf" and "it1 = (l, 0)"
  using assms by (auto simp: adjust_alignment_eq split: if_splits)

termination replace_loop
proof (relation "measure (\<lambda>(sub, pc, buf, it). length buf - fst it)", goal_cases)
  case 1
  show ?case by simp
next
  case (2 sub pc buf next_line x y b ba xa ya)
  from 2 have fl: "gtk_text_iter_forward_line buf next_line = (x, True)" by simp
  note f = forward_line_True [OF fl]
  from 2 f(1) have "adjust_alignment sub buf (fst next_line + 1, 0) = Inr (xa, ya)"
    by simp
  from adjust_alignment_Inr [OF this] f(2) show ?case by simp
qed

declare replace_loop.simps [simp del]

lemma find_text_Some:
  assumes "find_text pat xs = Some k"
  shows "k + length pat \<le> length xs" and "take (length pat) (drop k xs) = pat"
    and "\<forall>j<k. \<not> prefix pat (drop j xs)"
  using assms
proof (induction xs arbitrary: k)
  case Nil
  { case 1 then show ?case by (simp split: if_splits) }
  { case 2 then show ?case by (simp split: if_splits) }
  { case 3 then show ?case by (simp split: if_splits) }
next
  case (Cons c cs)
  { case 1 then show ?case
      using Cons.IH(1) by (auto dest: prefix_length_le split: if_splits) }
  { case 2 then show ?case
      using Cons.IH(2) by (auto simp: prefix_def split: if_splits) }
  { case 3 then show ?case
      using Cons.IH(3) by (auto simp: less_Suc_eq_0_disj split: if_splits) }
qed

lemma nonempty_fits:
  "xs \<noteq> [] \<Longrightarrow> k + length xs \<le> n - off \<Longrightarrow> off + k + length xs \<le> (n::nat)"
  by (cases xs) auto

lemma search_lines_Some:
  assumes "search_lines buf str l off = Some (ms, me)" and "str \<noteq> []"
  shows "fst me = fst ms \<and> l \<le> fst ms \<and> fst ms < length buf \<and>
         snd me = snd ms + length str \<and> snd me \<le> length (buf ! fst ms) \<and>
         (fst ms = l \<longrightarrow> off \<le> snd ms) \<and>
         take (length str) (drop (snd ms) (buf ! fst ms)) = str"
  using assms
proof (induction buf str l off rule: search_lines.induct)
  case (1 buf str l off)
  from "1.prems"(1) have l: "l < length buf"
    by (subst (asm) search_lines.simps) (simp split: if_splits)
  show ?case
  proof (cases "find_text str (drop off (buf ! l))")
    case None
    with "1.prems"(1) l have "search_lines buf str (l + 1) 0 = Some (ms, me)"
      by (subst (asm) search_lines.simps) simp
    from "1.IH" [OF l None this "1.prems"(2)] show ?thesis by simp
  next
    case (Some k)
    with "1.prems"(1) l have eq: "ms = (l, off + k)" "me = (l, off + k + length str)"
      by (subst (asm) search_lines.simps, simp)+
    from find_text_Some(1) [OF Some] "1.prems"(2)
    have fits: "off + k + length str \<le> length (buf ! l)"
      by (simp add: nonempty_fits)
    from find_text_Some(2) [OF Some]
    have "take (length str) (drop (off + k) (buf ! l)) = str"
      by (simp add: add.commute)
    with fits show ?thesis using l eq by simp
  qed
qed

lemma text_start_column_of_blank:
  "(text_start_column_of line = - 1) = (line_text line = [])"
  by (simp add: text_start_column_of_def)

lemma line_at_append_length: "line_at (pre @ r # rs) (length pre) = r"
  by (simp add: line_at_def)

lemma replace_loop_append:
  assumes "pc \<noteq> - 1" and "pre \<noteq> []"
  shows "replace_loop sub pc (pre @ rest) (length pre - 1, off) =
           (if takeWhile (\<lambda>ln. text_start_column_of ln = pc) rest \<noteq> [] \<and>
               pc - int (length (search_text sub)) + int (length (replacement sub)) < 0
            then Inl Assert_new_length_nonneg
            else Inr (pre @ map (realigned_line sub)
                              (takeWhile (\<lambda>ln. text_start_column_of ln = pc) rest) @
                      dropWhile (\<lambda>ln. text_start_column_of ln = pc) rest))"
  using assms(2)
proof (induction rest arbitrary: pre off)
  case Nil
  then have "gtk_text_iter_forward_line pre (length pre - 1, off) =
               ((length pre - 1, length (line_at pre (length pre - 1))), False)"
    by (simp add: gtk_text_iter_forward_line_def)
  then show ?case by (subst replace_loop.simps) simp
next
  case (Cons r rs)
  let ?buf = "pre @ r # rs"
  let ?P = "\<lambda>ln. text_start_column_of ln = pc"
  from Cons.prems have pre: "length pre - 1 + 1 = length pre" by (cases pre) auto
  have fl: "gtk_text_iter_forward_line ?buf (length pre - 1, off) =
              ((length pre, 0), \<not> (rs = [] \<and> r = []))"
    using pre by (auto simp: gtk_text_iter_forward_line_def gtk_text_iter_is_end_def
        line_at_append_length)
  have tsc: "get_text_start_column ?buf (length pre, 0) = Inr (text_start_column_of r)"
    by (simp add: get_text_start_column_eq line_at_append_length)
  show ?case
  proof (cases "?P r")
    case False
    then show ?thesis using fl tsc by (subst replace_loop.simps) (simp split: bool.split)
  next
    case True
    with assms(1) have nonblank: "line_text r \<noteq> []"
      using text_start_column_of_blank [of r] by simp
    then have "r \<noteq> []" by (auto simp: line_text_def)
    then have fl': "gtk_text_iter_forward_line ?buf (length pre - 1, off) = ((length pre, 0), True)"
      using fl by simp
    have nl: "new_length_of sub r =
                pc - int (length (search_text sub)) + int (length (replacement sub))"
      using True by (simp add: new_length_of_def)
    show ?thesis
    proof (cases "pc - int (length (search_text sub)) + int (length (replacement sub)) < 0")
      case neg: True
      then have "adjust_alignment sub ?buf (length pre, 0) = Inl Assert_new_length_nonneg"
        using nonblank nl by (simp add: adjust_alignment_eq line_at_append_length)
      then show ?thesis using fl' tsc True neg by (subst replace_loop.simps) simp
    next
      case nonneg: False
      then have aa: "adjust_alignment sub ?buf (length pre, 0) =
                   Inr ((pre @ [realigned_line sub r]) @ rs, (length pre, 0))"
        using nonblank nl by (simp add: adjust_alignment_eq line_at_append_length)
      have "replace_loop sub pc ?buf (length pre - 1, off) =
              replace_loop sub pc ((pre @ [realigned_line sub r]) @ rs)
                (length (pre @ [realigned_line sub r]) - 1, 0)"
        using fl' tsc True aa by (subst replace_loop.simps) simp
      also have "\<dots> = Inr ((pre @ [realigned_line sub r]) @
                     map (realigned_line sub) (takeWhile ?P rs) @ dropWhile ?P rs)"
        using nonneg by (subst Cons.IH) simp_all
      finally show ?thesis using True nonneg by simp
    qed
  qed
qed

lemma forward_Some:
  assumes "gtk_source_search_context_forward buf str iter = Some (ms, me)"
  shows "str \<noteq> []" and "fst me = fst ms" and "fst iter \<le> fst ms" and "fst ms < length buf"
    and "snd me = snd ms + length str" and "snd me \<le> length (buf ! fst ms)"
    and "fst ms = fst iter \<Longrightarrow> snd iter \<le> snd ms"
    and "take (length str) (drop (snd ms) (buf ! fst ms)) = str"
proof -
  from assms show ne: "str \<noteq> []"
    by (auto simp: gtk_source_search_context_forward_def split: if_splits)
  with assms have "search_lines buf str (fst iter) (snd iter) = Some (ms, me)"
    by (simp add: gtk_source_search_context_forward_def)
  note s = search_lines_Some [OF this ne]
  from s show "fst me = fst ms" by simp
  from s show "fst iter \<le> fst ms" by simp
  from s show "fst ms < length buf" by simp
  from s show "snd me = snd ms + length str" by simp
  from s show "snd me \<le> length (buf ! fst ms)" by simp
  from s show "fst ms = fst iter \<Longrightarrow> snd iter \<le> snd ms" by simp
  from s show "take (length str) (drop (snd ms) (buf ! fst ms)) = str" by simp
qed

lemma find_text_prefix: "prefix pat xs \<Longrightarrow> pat \<noteq> [] \<Longrightarrow> find_text pat xs = Some 0"
  by (cases xs) auto

lemma forward_at_match:
  assumes "gtk_source_search_context_forward buf str iter = Some (ms, me)"
  shows "gtk_source_search_context_forward buf str ms = Some (ms, me)"
proof -
  note f = forward_Some [OF assms]
  from f(8) have "prefix str (drop (snd ms) (buf ! fst ms))"
    by (metis take_is_prefix)
  from find_text_prefix [OF this f(1)] f(2,4,5)
  have "search_lines buf str (fst ms) (snd ms) = Some (ms, me)"
    by (subst search_lines.simps) (simp add: prod_eq_iff)
  with f(1) show ?thesis by (simp add: gtk_source_search_context_forward_def)
qed

lemma search_context_replace_eq:
  assumes "gtk_source_search_context_forward buf str (l, s) = Some ((l, s), (l', e))"
  shows "gtk_source_search_context_replace buf str (l, s) (l', e) repl =
     (buf[l := take s (buf ! l) @ repl @ drop e (buf ! l)], (l, s + length repl))"
proof -
  note f = forward_Some [OF assms]
  from f have l: "l < length buf" and "e = s + length str" and "e \<le> length (buf ! l)"
    by simp_all
  then have "s \<le> length (buf ! l)" by simp
  with l assms show ?thesis
    by (simp add: gtk_source_search_context_replace_def gtk_text_buffer_delete_def
        gtk_text_buffer_insert_def line_at_def min_def)
qed

lemma replace_eq:
  assumes "gtk_source_search_context_forward buf (search_text sub) (l, s) = Some ((l, s), (l', e))"
  shows "replace sub buf (l, s) (l', e) =
     (let pc = get_parenthesis_column buf (l', e);
          line1 = take s (buf ! l) @ replacement sub @ drop e (buf ! l);
          block = continuation_block pc buf l
      in if pc = - 1 then Inr (buf[l := line1], (l, s + length (replacement sub)))
         else if block \<noteq> [] \<and>
                 pc - int (length (search_text sub)) + int (length (replacement sub)) < 0
         then Inl Assert_new_length_nonneg
         else Inr (take l buf @ [line1] @ map (realigned_line sub) block @
                   drop (l + 1 + length block) buf,
                   (l, s + length (replacement sub))))"
proof -
  let ?pc = "get_parenthesis_column buf (l', e)"
  let ?line1 = "take s (buf ! l) @ replacement sub @ drop e (buf ! l)"
  let ?P = "\<lambda>ln. text_start_column_of ln = ?pc"
  from forward_Some(4) [OF assms] have l: "l < length buf" by simp
  note sr = search_context_replace_eq [OF assms]
  have upd: "buf[l := ?line1] = (take l buf @ [?line1]) @ drop (l + 1) buf"
    using l by (simp add: upd_conv_take_nth_drop)
  have len: "length (take l buf @ [?line1]) - 1 = l"
    using l by simp
  have dw: "dropWhile ?P (drop (l + 1) buf) =
              drop (l + 1 + length (takeWhile ?P (drop (l + 1) buf))) buf"
    by (metis add.commute drop_drop dropWhile_eq_drop)
  show ?thesis
  proof (cases "?pc = - 1")
    case True
    then show ?thesis
      by (simp add: replace_def sr Let_def)
  next
    case False
    have "replace_loop sub ?pc (buf[l := ?line1]) (l, s + length (replacement sub)) =
            replace_loop sub ?pc ((take l buf @ [?line1]) @ drop (l + 1) buf)
              (length (take l buf @ [?line1]) - 1, s + length (replacement sub))"
      by (simp only: upd [symmetric] len)
    also note replace_loop_append [OF False, of "take l buf @ [?line1]"]
    finally have rl: "replace_loop sub ?pc (buf[l := ?line1]) (l, s + length (replacement sub)) =
       (if takeWhile ?P (drop (l + 1) buf) \<noteq> [] \<and>
           ?pc - int (length (search_text sub)) + int (length (replacement sub)) < 0
        then Inl Assert_new_length_nonneg
        else Inr ((take l buf @ [?line1]) @ map (realigned_line sub) (takeWhile ?P (drop (l + 1) buf)) @
                  dropWhile ?P (drop (l + 1) buf)))"
      by simp
    show ?thesis
      using False
      by (simp add: replace_def sr Let_def rl dw continuation_block_def del: One_nat_def)
  qed
qed

lemma replace_Inr:
  assumes "replace sub buf (l, s) (l', e) = Inr (buf1, it1)"
    and "gtk_source_search_context_forward buf (search_text sub) (l, s) = Some ((l, s), (l', e))"
  shows "length buf1 = length buf" and "it1 = (l, s + length (replacement sub))"
    and "buf1 ! l = take s (buf ! l) @ replacement sub @ drop e (buf ! l)"
    and "take l buf1 = take l buf"
proof -
  let ?pc = "get_parenthesis_column buf (l', e)"
  let ?line1 = "take s (buf ! l) @ replacement sub @ drop e (buf ! l)"
  let ?block = "continuation_block ?pc buf l"
  from forward_Some(4) [OF assms(2)] have l: "l < length buf" by simp
  have bl: "length ?block \<le> length buf - (l + 1)"
    unfolding continuation_block_def
    by (metis length_drop length_takeWhile_le)
  from assms(1) have it: "it1 = (l, s + length (replacement sub))"
    and b: "buf1 = buf[l := ?line1] \<or>
         buf1 = take l buf @ [?line1] @ map (realigned_line sub) ?block @
                drop (l + 1 + length ?block) buf"
    by (auto simp: replace_eq [OF assms(2)] Let_def split: if_splits)
  show "it1 = (l, s + length (replacement sub))" by (rule it)
  from b bl l show "length buf1 = length buf" by auto
  from b l show "buf1 ! l = ?line1" by (auto simp: nth_append)
  from b l show "take l buf1 = take l buf" by auto
qed

termination do_substitution_loop
proof (relation "measures [\<lambda>(sub, buf, it). length buf - fst it,
                           \<lambda>(sub, buf, it). length (line_at buf (fst it)) - snd it]", goal_cases)
  case 1
  show ?case by simp
next
  case (2 sub buf iter x2 ms me x2a buf1 me1)
  then have fw: "gtk_source_search_context_forward buf (search_text sub) iter = Some (ms, me)"
    by simp
  note f = forward_Some [OF fw]
  obtain l s where ms: "ms = (l, s)" by (cases ms)
  obtain l' e where me: "me = (l', e)" by (cases me)
  from f ms me have l: "l < length buf" and se: "e = s + length (search_text sub)"
    and e: "e \<le> length (buf ! l)" and ne: "search_text sub \<noteq> []"
    and le: "fst iter \<le> l" and same: "l = fst iter \<Longrightarrow> snd iter \<le> s"
    by auto
  from se e have s: "s \<le> length (buf ! l)" by simp
  from forward_at_match [OF fw]
  have m: "gtk_source_search_context_forward buf (search_text sub) (l, s) = Some ((l, s), (l', e))"
    by (simp add: ms me)
  from 2 ms me have "replace sub buf (l, s) (l', e) = Inr (buf1, me1)" by simp
  note r = replace_Inr [OF this m]
  have rem: "length (line_at buf1 (fst me1)) - snd me1 = length (buf ! l) - e"
    using r l s e by (simp add: line_at_def)
  have lt: "s < e" using se ne by simp
  show ?case
  proof (cases "l = fst iter")
    case True
    then have "length (buf ! l) - e < length (line_at buf (fst iter)) - snd iter"
      using same lt e l by (simp add: line_at_def)
    with True r rem show ?thesis by simp
  next
    case False
    with le l have "length buf - l < length buf - fst iter" by simp
    with r show ?thesis by simp
  qed
qed

declare do_substitution_loop.simps [simp del]

lemma do_substitution_loop_None:
  "gtk_source_search_context_forward buf (search_text sub) iter = None \<Longrightarrow>
   do_substitution_loop sub buf iter = Inr buf"
  by (subst do_substitution_loop.simps) simp

lemma do_substitution_loop_Some:
  "gtk_source_search_context_forward buf (search_text sub) iter = Some (ms, me) \<Longrightarrow>
   replace sub buf ms me = Inr (buf1, me1) \<Longrightarrow>
   do_substitution_loop sub buf iter = do_substitution_loop sub buf1 me1"
  by (subst do_substitution_loop.simps) simp

lemma replicate_numeral:
  "replicate (numeral k) x = x # replicate (pred_numeral k) x"
  by (simp add: numeral_eq_Suc)

lemmas eval_search =
  gtk_source_search_context_forward_def search_lines.simps codepoints_def

lemmas eval_column =
  get_parenthesis_column_def gtk_text_iter_ends_line_def gtk_text_iter_forward_to_line_end_def
  gtk_text_iter_forward_search_def gtk_source_view_get_visual_column_def line_at_def
  codepoints_def

lemmas eval_adjust =
  get_text_start_column_eq line_at_def text_start_column_of_def line_text_def
  leading_whitespace_def g_unichar_isspace_def codepoints_def

lemmas eval_lines =
  continuation_block_def text_start_column_of_def line_text_def leading_whitespace_def
  g_unichar_isspace_def realigned_line_def new_indentation_def new_length_of_def
  codepoints_def replicate_numeral

lemma find_text_single:
  "find_text [c] xs =
     (if c \<in> set xs then Some (length (takeWhile (\<lambda>x. x \<noteq> c) xs)) else None)"
  by (induction xs) auto

lemma length_takeWhile_less:
  "c \<in> set xs \<Longrightarrow> length (takeWhile (\<lambda>x. x \<noteq> c) xs) < length xs"
  by (induction xs) auto

lemma get_parenthesis_column_eq:
  "get_parenthesis_column buf (l, e) =
     (if LPAREN \<in> set (drop e (line_at buf l))
      then int (visual_column_from 0
             (take (e + length (takeWhile (\<lambda>x. x \<noteq> LPAREN) (drop e (line_at buf l))) + 1)
                (line_at buf l)))
      else - 1)"
proof (cases "LPAREN \<in> set (drop e (line_at buf l))")
  case True
  let ?k = "length (takeWhile (\<lambda>x. x \<noteq> LPAREN) (drop e (line_at buf l)))"
  from True have e: "e < length (line_at buf l)"
    by (cases "e < length (line_at buf l)") auto
  have "?k < length (drop e (line_at buf l))"
    using True by (rule length_takeWhile_less)
  then have k: "e + ?k + 1 \<le> length (line_at buf l)" by simp
  show ?thesis
    using True e k
    by (simp add: get_parenthesis_column_def gtk_text_iter_ends_line_def
        gtk_text_iter_forward_to_line_end_def gtk_text_iter_forward_search_def
        find_text_single gtk_source_view_get_visual_column_def)
next
  case False
  then show ?thesis
    by (simp add: get_parenthesis_column_def gtk_text_iter_ends_line_def
        gtk_text_iter_forward_to_line_end_def gtk_text_iter_forward_search_def
        find_text_single)
qed

lemma first_index_takeWhile:
  assumes "e \<le> p" and "p < length xs" and "xs ! p = c"
    and "\<forall>i. e \<le> i \<and> i < p \<longrightarrow> xs ! i \<noteq> c"
  shows "length (takeWhile (\<lambda>x. x \<noteq> c) (drop e xs)) = p - e"
proof -
  have split: "drop e xs = take (p - e) (drop e xs) @ drop (p - e) (drop e xs)"
    by (rule append_take_drop_id [symmetric])
  have nc: "\<forall>x \<in> set (take (p - e) (drop e xs)). x \<noteq> c"
  proof
    fix x assume "x \<in> set (take (p - e) (drop e xs))"
    then obtain i where "i < p - e" and "x = drop e xs ! i"
      using assms(1,2) by (auto simp: in_set_conv_nth)
    then show "x \<noteq> c" using assms by simp
  qed
  have "drop (p - e) (drop e xs) = drop p xs"
    using assms(1) by simp
  then have hd: "drop (p - e) (drop e xs) = c # drop (Suc p) xs"
    using assms(2,3) Cons_nth_drop_Suc [of p xs] by simp
  have "takeWhile (\<lambda>x. x \<noteq> c) (drop e xs) = take (p - e) (drop e xs)"
    by (subst split, subst takeWhile_append2) (use nc hd in auto)
  then show ?thesis using assms(1,2) by simp
qed

lemma get_parenthesis_column_anchor:
  assumes "l < length buf" and "e \<le> p" and "p < length (buf ! l)" and "buf ! l ! p = LPAREN"
    and "\<forall>i. e \<le> i \<and> i < p \<longrightarrow> buf ! l ! i \<noteq> LPAREN"
  shows "get_parenthesis_column buf (l, e) = int (visual_column_from 0 (take (p + 1) (buf ! l)))"
proof -
  have k: "length (takeWhile (\<lambda>x. x \<noteq> LPAREN) (drop e (buf ! l))) = p - e"
    by (rule first_index_takeWhile [OF assms(2-5)])
  have "buf ! l ! p \<in> set (drop e (buf ! l))"
    using assms(2,3) by (auto simp: in_set_conv_nth intro!: exI [of _ "p - e"])
  then have "LPAREN \<in> set (drop e (buf ! l))" using assms(4) by simp
  then show ?thesis
    using assms(1,2) k by (simp add: get_parenthesis_column_eq line_at_def)
qed

lemma visual_column_from_append:
  "visual_column_from c (xs @ ys) = visual_column_from (visual_column_from c xs) ys"
  by (induction xs arbitrary: c) auto

lemma visual_column_from_no_tab:
  "TAB \<notin> set xs \<Longrightarrow> visual_column_from c xs = c + length xs"
  by (induction xs arbitrary: c) auto

lemma visual_column_from_snoc:
  "x \<noteq> TAB \<Longrightarrow> visual_column_from c (xs @ [x]) = visual_column_from c xs + 1"
  by (simp add: visual_column_from_append)

lemma visual_column_from_tabs:
  "visual_column_from (8 * a) (replicate n TAB) = 8 * (a + n)"
proof (induction n arbitrary: a)
  case 0
  show ?case by simp
next
  case (Suc n)
  have "8 * a + (8 - 8 * a mod 8) = 8 * (a + 1)"
    by simp
  then have "visual_column_from (8 * a) (replicate (Suc n) TAB) =
          visual_column_from (8 * (a + 1)) (replicate n TAB)"
    by (simp only: replicate_Suc visual_column_from.simps simp_thms if_True)
  also have "\<dots> = 8 * (a + 1 + n)" by (rule Suc.IH)
  finally show ?case by simp
qed

lemma visual_column_new_indentation:
  assumes "0 \<le> n"
  shows "visual_column_from 0 (new_indentation tabs n) = nat n"
proof (cases tabs)
  case True
  have "visual_column_from 0 (replicate (nat (n div 8)) TAB @ replicate (nat (n mod 8)) SPACE) =
          8 * nat (n div 8) + nat (n mod 8)"
    using visual_column_from_tabs [of 0 "nat (n div 8)"]
    by (simp add: visual_column_from_append visual_column_from_no_tab)
  also have "\<dots> = nat n"
  proof -
    have "int (8 * nat (n div 8) + nat (n mod 8)) = 8 * (n div 8) + n mod 8"
      using assms by (simp add: pos_imp_zdiv_nonneg_iff)
    also have "\<dots> = n" by simp
    finally show ?thesis by linarith
  qed
  finally show ?thesis using True by (simp add: new_indentation_def)
next
  case False
  then show ?thesis by (simp add: new_indentation_def visual_column_from_no_tab)
qed

lemma isspace_new_indentation:
  "\<forall>x \<in> set (new_indentation tabs n). g_unichar_isspace x"
  by (auto simp: new_indentation_def g_unichar_isspace_def)

lemma line_text_starts_with_text:
  "line_text line \<noteq> [] \<Longrightarrow> \<not> g_unichar_isspace (hd (line_text line))"
  unfolding line_text_def by (metis hd_dropWhile)

lemma leading_whitespace_realigned:
  assumes "line_text line \<noteq> []" and "\<forall>x \<in> set ind. g_unichar_isspace x"
  shows "leading_whitespace (ind @ line_text line) = ind"
    and "line_text (ind @ line_text line) = line_text line"
proof -
  obtain x xs where t: "line_text line = x # xs" using assms(1) by (cases "line_text line") auto
  with line_text_starts_with_text [OF assms(1)] have x: "\<not> g_unichar_isspace x" by simp
  show "leading_whitespace (ind @ line_text line) = ind"
    using assms(2) x t by (simp add: leading_whitespace_def takeWhile_append2)
  show "line_text (ind @ line_text line) = line_text line"
    using assms(2) x t by (simp add: line_text_def dropWhile_append2)
qed

lemma text_start_column_of_realigned:
  assumes "line_text line \<noteq> []" and "0 \<le> new_length_of sub line"
  shows "text_start_column_of (realigned_line sub line) = new_length_of sub line"
    and "line_text (realigned_line sub line) = line_text line"
  using assms leading_whitespace_realigned [OF assms(1) isspace_new_indentation]
  by (simp_all add: text_start_column_of_def realigned_line_def visual_column_new_indentation)





lemma replace_lines:
  assumes "gtk_source_search_context_forward buf (search_text sub) iter = Some ((l, s), (l', e))"
    and "get_parenthesis_column buf (l', e) = pc" and "pc \<noteq> - 1"
    and "replace sub buf (l, s) (l', e) = Inr (buf1, it1)"
    and "k = length (continuation_block pc buf l)"
  shows "length buf1 = length buf \<and>
         (\<forall>j<l. buf1 ! j = buf ! j) \<and>
         buf1 ! l = take s (buf ! l) @ replacement sub @ drop e (buf ! l) \<and>
         (\<forall>j. l < j \<and> j \<le> l + k \<longrightarrow>
            get_text_start_column buf (j, 0) = Inr pc \<and>
            adjust_alignment sub buf (j, 0) = Inr (buf[j := buf1 ! j], (j, 0))) \<and>
         (l + k + 1 < length buf \<longrightarrow> get_text_start_column buf (l + k + 1, 0) \<noteq> Inr pc) \<and>
         (\<forall>j. l + k < j \<and> j < length buf \<longrightarrow> buf1 ! j = buf ! j)"
proof -
  note pcdef = assms(2) and anchor = assms(3) and r = assms(4) and kdef = assms(5)
  note m = forward_at_match [OF assms(1)]
  from forward_Some(4) [OF assms(1)] have l: "l < length buf" by simp
  let ?P = "\<lambda>ln. text_start_column_of ln = pc"
  let ?block = "continuation_block pc buf l"
  let ?line1 = "take s (buf ! l) @ replacement sub @ drop e (buf ! l)"
  let ?delta = "int (length (replacement sub)) - int (length (search_text sub))"
  have kle: "l + 1 + k \<le> length buf"
    unfolding kdef continuation_block_def
    using length_takeWhile_le [of ?P "drop (l + 1) buf"] l by simp
  have lenb: "length ?block = k" by (simp add: kdef)
  have block_nth: "?block ! i = buf ! (l + 1 + i)" if "i < k" for i
    using that kle unfolding kdef continuation_block_def
    by (simp add: takeWhile_nth)
  have block_P: "text_start_column_of (buf ! (l + 1 + i)) = pc" if "i < k" for i
  proof -
    from that have "?block ! i \<in> set ?block" unfolding kdef by simp
    then have "?P (?block ! i)" unfolding continuation_block_def by (rule set_takeWhileD [THEN conjunct2])
    with block_nth [OF that] show ?thesis by simp
  qed
  from r have nonneg: "k = 0 \<or> 0 \<le> pc + ?delta"
    and b1: "buf1 = take l buf @ [?line1] @ map (realigned_line sub) ?block @ drop (l + 1 + k) buf"
    using pcdef anchor kdef
    by (auto simp: replace_eq [OF m] Let_def split: if_splits)
  have len: "length buf1 = length buf"
    using kle l kdef by (simp add: b1)
  have before: "\<forall>j<l. buf1 ! j = buf ! j"
    using l by (simp add: b1 nth_append)
  have at: "buf1 ! l = ?line1"
    using l by (simp add: b1 nth_append)
  have inblock: "buf1 ! j = realigned_line sub (buf ! j)" if "l < j" "j \<le> l + k" for j
  proof -
    from that have i: "j - (l + 1) < k" and j: "l + 1 + (j - (l + 1)) = j" by auto
    have "buf1 ! j = (map (realigned_line sub) ?block @ drop (l + 1 + k) buf) ! (j - (l + 1))"
      using that l by (simp add: b1 nth_append)
    also have "\<dots> = realigned_line sub (?block ! (j - (l + 1)))"
      using i kdef by (simp add: nth_append)
    finally show ?thesis using block_nth [OF i] j by simp
  qed
  have after: "\<forall>j. l + k < j \<and> j < length buf \<longrightarrow> buf1 ! j = buf ! j"
  proof (intro allI impI)
    fix j assume j: "l + k < j \<and> j < length buf"
    then have "buf1 ! j = (map (realigned_line sub) ?block @ drop (l + 1 + k) buf) ! (j - (l + 1))"
      using l by (simp add: b1 nth_append)
    also have "\<dots> = drop (l + 1 + k) buf ! (j - (l + 1) - k)"
    proof -
      from j have "\<not> j - (l + 1) < k" by arith
      then show ?thesis using lenb by (simp add: nth_append)
    qed
    also have "\<dots> = buf ! j" using j kle by simp
    finally show "buf1 ! j = buf ! j" .
  qed
  have realign: "get_text_start_column buf (j, 0) = Inr pc \<and>
      adjust_alignment sub buf (j, 0) = Inr (buf[j := buf1 ! j], (j, 0))"
    if "l < j" "j \<le> l + k" for j
  proof -
    from that kle have jl: "j < length buf" by simp
    from that have i: "j - (l + 1) < k" and j: "l + 1 + (j - (l + 1)) = j" by auto
    from block_P [OF i] j have P: "text_start_column_of (buf ! j) = pc" by simp
    with anchor have nonblank: "line_text (line_at buf j) \<noteq> []"
      using text_start_column_of_blank [of "buf ! j"] jl by (simp add: line_at_def)
    from that nonneg P have "0 \<le> new_length_of sub (line_at buf j)"
      using jl by (auto simp: new_length_of_def line_at_def)
    from adjust_alignment_realigns [OF nonblank this] inblock [OF that] P jl
    show ?thesis by (simp add: get_text_start_column_eq line_at_def)
  qed
  have stop: "get_text_start_column buf (l + k + 1, 0) \<noteq> Inr pc" if "l + k + 1 < length buf"
  proof -
    have "k < length (drop (l + 1) buf)" using that by simp
    then have "\<not> ?P (drop (l + 1) buf ! k)"
      unfolding kdef continuation_block_def by (rule nth_length_takeWhile)
    then show ?thesis
      using that by (simp add: get_text_start_column_eq line_at_def add.commute add.left_commute)
  qed
  from len before at realign stop after show ?thesis by blast
qed

lemma get_parenthesis_column_split:
  assumes "l < length buf" and "buf ! l = A @ B @ LPAREN # C" and "LPAREN \<notin> set B"
  shows "get_parenthesis_column buf (l, length A) =
           int (visual_column_from 0 (A @ B @ [LPAREN]))"
proof -
  have d: "drop (length A) (line_at buf l) = B @ LPAREN # C"
    using assms(1,2) by (simp add: line_at_def)
  have tw: "takeWhile (\<lambda>x. x \<noteq> LPAREN) (B @ LPAREN # C) = B"
    using assms(3) by (induction B) auto
  have "take (length A + length B + 1) (line_at buf l) = A @ B @ [LPAREN]"
    using assms(1,2) by (simp add: line_at_def)
  then show ?thesis
    by (simp add: get_parenthesis_column_eq d tw)
qed

lemma takeWhile_length_ge:
  "n \<le> length xs \<Longrightarrow> \<forall>i<n. P (xs ! i) \<Longrightarrow> n \<le> length (takeWhile P xs)"
proof (induction xs arbitrary: n)
  case Nil
  then show ?case by simp
next
  case (Cons x xs)
  show ?case
  proof (cases n)
    case 0
    then show ?thesis by simp
  next
    case (Suc m)
    with Cons.prems have x: "P x" and m: "m \<le> length xs" and "\<forall>i<m. P (xs ! i)" by auto
    from Cons.IH [OF m this(3)] x Suc show ?thesis by simp
  qed
qed

lemma continuation_block_ge:
  assumes "pc \<noteq> - 1"
    and "\<forall>j. l < j \<and> j \<le> l + k \<longrightarrow> get_text_start_column buf (j, 0) = Inr pc"
  shows "k \<le> length (continuation_block pc buf l)"
proof -
  have aligned: "j < length buf \<and> text_start_column_of (buf ! j) = pc" if "l < j" "j \<le> l + k" for j
  proof -
    from assms(2) that have t: "text_start_column_of (line_at buf j) = pc"
      by (simp add: get_text_start_column_eq)
    with assms(1) have "line_text (line_at buf j) \<noteq> []"
      using text_start_column_of_blank [of "line_at buf j"] by simp
    then have "j < length buf"
      by (cases "j < length buf") (simp_all add: line_at_def line_text_def)
    with t show ?thesis by (simp add: line_at_def)
  qed
  have len: "k \<le> length (drop (l + 1) buf)"
  proof (cases k)
    case 0
    then show ?thesis by simp
  next
    case (Suc m)
    then have "l < l + k" "l + k \<le> l + k" by simp_all
    from aligned [OF this] have "l + k < length buf" by simp
    then show ?thesis by simp
  qed
  have "\<forall>i<k. text_start_column_of (drop (l + 1) buf ! i) = pc"
  proof (intro allI impI)
    fix i assume i: "i < k"
    then have "l < l + 1 + i" "l + 1 + i \<le> l + k" by simp_all
    from aligned [OF this] show "text_start_column_of (drop (l + 1) buf ! i) = pc"
      by simp
  qed
  from takeWhile_length_ge [OF len this] show ?thesis
    by (simp add: continuation_block_def)
qed

lemma continuation_block_length:
  assumes "pc \<noteq> - 1"
    and "\<forall>j. l < j \<and> j \<le> l + k \<longrightarrow> get_text_start_column buf (j, 0) = Inr pc"
    and "l + k + 1 < length buf \<longrightarrow> get_text_start_column buf (l + k + 1, 0) \<noteq> Inr pc"
  shows "k = length (continuation_block pc buf l)"
proof (rule antisym)
  show "k \<le> length (continuation_block pc buf l)"
    by (rule continuation_block_ge [OF assms(1,2)])
next
  let ?P = "\<lambda>ln. text_start_column_of ln = pc"
  let ?xs = "drop (l + 1) buf"
  show "length (continuation_block pc buf l) \<le> k"
  proof (rule ccontr)
    assume "\<not> length (continuation_block pc buf l) \<le> k"
    then have k: "k < length (takeWhile ?P ?xs)" by (simp add: continuation_block_def)
    then have "takeWhile ?P ?xs ! k \<in> set (takeWhile ?P ?xs)" by simp
    then have "?P (takeWhile ?P ?xs ! k)" by (rule set_takeWhileD [THEN conjunct2])
    with k have P: "?P (?xs ! k)" by (simp add: takeWhile_nth)
    from k length_takeWhile_le [of ?P ?xs] have lt: "l + k + 1 < length buf" by simp
    with P have "get_text_start_column buf (l + k + 1, 0) = Inr pc"
      by (simp add: get_text_start_column_eq line_at_def add.commute add.left_commute)
    with assms(3) lt show False by simp
  qed
qed

section \<open>The claims\<close>

subsection \<open>The inputs of the examples\<close>

definition function_call_sub :: Sub where
  "function_call_sub =
     \<lparr>search_text = codepoints ''function_call'',
      replacement = codepoints ''another_beautiful_name'',
      file_location = codepoints ''file.c''\<rparr>"

definition tab_sub :: Sub where
  "tab_sub = \<lparr>search_text = codepoints ''foobar'', replacement = codepoints ''foobarbaz'',
      file_location = codepoints ''file.c''\<rparr>"

definition tab_buf :: GtkTextBuffer where
  "tab_buf = [codepoints ''foobar (a,'', TAB # codepoints ''b);'', codepoints ''c'']"

definition function_call_buf :: GtkTextBuffer where
  "function_call_buf =
     map codepoints
       [''function_call (param1,'',
        ''               param2,'',
        ''               param3);'',
        [],
        ''               param4'']"

definition longfoo_sub :: Sub where
  "longfoo_sub =
     \<lparr>search_text = codepoints ''foo'', replacement = codepoints ''longfoo'',
      file_location = codepoints ''file.c''\<rparr>"


definition foo_sub :: Sub where
  "foo_sub =
     \<lparr>search_text = codepoints ''foo'', replacement = codepoints ''foofoo'',
      file_location = codepoints ''file.c''\<rparr>"


definition f_sub :: Sub where
  "f_sub =
     \<lparr>search_text = codepoints ''f'', replacement = codepoints ''ff'',
      file_location = codepoints ''file.c''\<rparr>"

definition delete_sub :: Sub where
  "delete_sub =
     \<lparr>search_text = codepoints ''foo'', replacement = [],
      file_location = codepoints ''file.c''\<rparr>"

subsection \<open>C1: the scenario of the header comment\<close>

text \<open>
  C1.  The buffer holds the call of the header comment, its two continuation lines
  aligned on the first argument, at column 15.  The substitution of
  \<^verbatim>\<open>function_call\<close> by \<^verbatim>\<open>another_beautiful_name\<close> renames the call and
  leaves the continuation lines at column 24, nine columns further, which is the
  column after the parenthesis again.  The last conjunct is the same run on the
  listing as the specification prints it, with a margin of two columns on each of
  the three lines.
\<close>

theorem scenario_function_call:
  "do_substitution function_call_sub
     (map codepoints
        [''function_call (param1,'',
         ''               param2,'',
         ''               param3);'']) =
   Inr (map codepoints
        [''another_beautiful_name (param1,'',
         ''                        param2,'',
         ''                        param3);'']) \<and>
   get_text_start_column
     (map codepoints
        [''function_call (param1,'',
         ''               param2,'',
         ''               param3);'']) (1, 0) = Inr 15 \<and>
   get_text_start_column
     (map codepoints
        [''function_call (param1,'',
         ''               param2,'',
         ''               param3);'']) (2, 0) = Inr 15 \<and>
   get_text_start_column
     (map codepoints
        [''another_beautiful_name (param1,'',
         ''                        param2,'',
         ''                        param3);'']) (1, 0) = Inr (15 + 9) \<and>
   get_text_start_column
     (map codepoints
        [''another_beautiful_name (param1,'',
         ''                        param2,'',
         ''                        param3);'']) (2, 0) = Inr (15 + 9) \<and>
   get_parenthesis_column
     (map codepoints
        [''another_beautiful_name (param1,'',
         ''                        param2,'',
         ''                        param3);'']) (0, 22) = 15 + 9 \<and>
   do_substitution function_call_sub
     (map codepoints
        [''  function_call (param1,'',
         ''                 param2,'',
         ''                 param3);'']) =
   Inr (map codepoints
        [''  another_beautiful_name (param1,'',
         ''                          param2,'',
         ''                          param3);''])"
proof -
  let ?sub = function_call_sub
  let ?buf = "map codepoints
        [''function_call (param1,'',
         ''               param2,'',
         ''               param3);'']"
  let ?buf1 = "map codepoints
        [''another_beautiful_name (param1,'',
         ''                        param2,'',
         ''                        param3);'']"
  have s1: "gtk_source_search_context_forward ?buf (search_text ?sub) (0, 0) = Some ((0, 0), (0, 13))"
    by (simp add: function_call_sub_def eval_search)
  have r1: "replace ?sub ?buf (0, 0) (0, 13) = Inr (?buf1, (0, 22))"
    by (subst replace_eq) (simp_all add: Let_def function_call_sub_def eval_search eval_column eval_lines)
  have s2: "gtk_source_search_context_forward ?buf1 (search_text ?sub) (0, 22) = None"
    by (simp add: function_call_sub_def eval_search)
  have run: "do_substitution ?sub ?buf = Inr ?buf1"
    unfolding do_substitution_def
    by (simp only: do_substitution_loop_Some [OF s1 r1] do_substitution_loop_None [OF s2])
  have before: "get_text_start_column ?buf (1, 0) = Inr 15"
    "get_text_start_column ?buf (2, 0) = Inr 15"
    by (simp_all add: eval_adjust)
  have after: "get_text_start_column ?buf1 (1, 0) = Inr (15 + 9)"
    "get_text_start_column ?buf1 (2, 0) = Inr (15 + 9)"
    by (simp_all add: eval_adjust)
  have paren: "get_parenthesis_column ?buf1 (0, 22) = 15 + 9"
    by (simp add: eval_column)
  let ?mbuf = "map codepoints
        [''  function_call (param1,'',
         ''                 param2,'',
         ''                 param3);'']"
  let ?mbuf1 = "map codepoints
        [''  another_beautiful_name (param1,'',
         ''                          param2,'',
         ''                          param3);'']"
  have ms1: "gtk_source_search_context_forward ?mbuf (search_text ?sub) (0, 0) = Some ((0, 2), (0, 15))"
    by (simp add: function_call_sub_def eval_search)
  have mr1: "replace ?sub ?mbuf (0, 2) (0, 15) = Inr (?mbuf1, (0, 24))"
    by (subst replace_eq) (simp_all add: Let_def function_call_sub_def eval_search eval_column eval_lines)
  have ms2: "gtk_source_search_context_forward ?mbuf1 (search_text ?sub) (0, 24) = None"
    by (simp add: function_call_sub_def eval_search)
  have mrun: "do_substitution ?sub ?mbuf = Inr ?mbuf1"
    unfolding do_substitution_def
    by (simp only: do_substitution_loop_Some [OF ms1 mr1] do_substitution_loop_None [OF ms2])
  from run before after paren mrun show ?thesis by (intro conjI)
qed

subsection \<open>C2: the column of the realigned lines\<close>

text \<open>
  C2, as the code has it.  \<^verbatim>\<open>adjust_alignment\<close> moves a continuation line by the
  difference of the lengths of the replacement and of the search text.  That is the
  distance by which the parenthesis moves when neither text, nor the text between the
  match and the parenthesis, holds a tab, and neither text holds a line terminator:
  a replacement with a line feed in it would leave the parenthesis on a new line, at
  the column of what follows the line feed, and the continuation lines would not
  follow.  Then, when \<^verbatim>\<open>replace\<close> returns, a
  line \<open>j\<close> after the match, such that every line from \<open>l + 1\<close> to \<open>j\<close> started at
  the anchor column, starts at the column after the parenthesis of the replaced line
  (the anchor column of C10, one past the character).  The line of the match is
  \<open>A\<close>, the search text, \<open>B\<close>, the parenthesis, \<open>C\<close>.
\<close>

theorem column_invariance_after_match:
  assumes "gtk_source_search_context_forward buf (search_text sub) iter = Some ((l, s), me)"
    and "buf ! l = A @ search_text sub @ B @ LPAREN # C" and "length A = s"
    and "LPAREN \<notin> set B" and "TAB \<notin> set B"
    and "TAB \<notin> set (search_text sub)" and "TAB \<notin> set (replacement sub)"
    and "replace sub buf (l, s) me = Inr (buf1, it1)"
    and "l < j"
    and "\<forall>i. l < i \<and> i \<le> j \<longrightarrow>
           get_text_start_column buf (i, 0) = Inr (get_parenthesis_column buf me)"
    and "single_line (search_text sub)" and "single_line (replacement sub)"
  shows "buf1 ! l = A @ replacement sub @ B @ LPAREN # C \<and>
         get_parenthesis_column buf1 it1 =
           gtk_source_view_get_visual_column buf1 (l, length (A @ replacement sub @ B)) + 1 \<and>
         get_text_start_column buf1 (j, 0) = Inr (get_parenthesis_column buf1 it1)"
proof -
  obtain l' e where me: "me = (l', e)" by (cases me)
  note f = forward_Some [OF assms(1)]
  from f me have l: "l < length buf" and e: "e = s + length (search_text sub)"
    and el: "e \<le> length (buf ! l)" and l': "l' = l" by auto
  then have s: "s \<le> length (buf ! l)" by simp
  from assms(1) have fw: "gtk_source_search_context_forward buf (search_text sub) iter =
      Some ((l, s), (l', e))" by (simp add: me)
  note m = forward_at_match [OF fw]
  let ?pc = "get_parenthesis_column buf (l', e)"
  let ?n = "int (length (search_text sub))"
  let ?m = "int (length (replacement sub))"
  define k where "k = length (continuation_block ?pc buf l)"
  have col: "visual_column_from 0 (A @ xs @ B @ [LPAREN]) =
               visual_column_from 0 A + length xs + length B + 1" if "TAB \<notin> set xs" for xs
    using that assms(5) by (simp add: visual_column_from_append visual_column_from_no_tab)
  have "get_parenthesis_column buf (l, length (A @ search_text sub)) =
          int (visual_column_from 0 ((A @ search_text sub) @ B @ [LPAREN]))"
    by (rule get_parenthesis_column_split [OF l _ assms(4)]) (simp add: assms(2))
  then have "get_parenthesis_column buf (l, e) =
          int (visual_column_from 0 (A @ search_text sub @ B @ [LPAREN]))"
    by (simp add: e assms(3))
  then have pc: "?pc = int (visual_column_from 0 A) + ?n + int (length B) + 1"
    using col [OF assms(6)] by (simp add: l')
  then have anchor: "?pc \<noteq> - 1" by simp
  from assms(8) have r: "replace sub buf (l, s) (l', e) = Inr (buf1, it1)" by (simp add: me)
  note ri = replace_Inr [OF r m]
  have line1: "buf1 ! l = A @ replacement sub @ B @ LPAREN # C"
    using ri(3) assms(2,3) e by simp
  have l1: "l < length buf1" using ri(1) l by simp
  have "get_parenthesis_column buf1 (l, length (A @ replacement sub)) =
          int (visual_column_from 0 ((A @ replacement sub) @ B @ [LPAREN]))"
    by (rule get_parenthesis_column_split [OF l1 _ assms(4)]) (simp add: line1)
  then have pc1': "get_parenthesis_column buf1 it1 =
          int (visual_column_from 0 (A @ replacement sub @ B @ [LPAREN]))"
    by (simp add: ri(2) assms(3))
  then have pc1: "get_parenthesis_column buf1 it1 =
          int (visual_column_from 0 A) + ?m + int (length B) + 1"
    using col [OF assms(7)] by simp
  have "take (length (A @ replacement sub @ B)) (line_at buf1 l) = A @ replacement sub @ B"
    using l1 line1 by (simp add: line_at_def)
  then have vis: "gtk_source_view_get_visual_column buf1 (l, length (A @ replacement sub @ B)) =
      int (visual_column_from 0 (A @ replacement sub @ B))"
    by (simp only: gtk_source_view_get_visual_column_def fst_conv snd_conv)
  have "visual_column_from 0 (A @ replacement sub @ B @ [LPAREN]) =
          visual_column_from 0 (A @ replacement sub @ B) + 1"
    using visual_column_from_snoc [of LPAREN 0 "A @ replacement sub @ B"] by simp
  with pc1' vis have after: "get_parenthesis_column buf1 it1 =
      gtk_source_view_get_visual_column buf1 (l, length (A @ replacement sub @ B)) + 1"
    by simp
  note lines = replace_lines [OF fw refl anchor r k_def]
  note inside = lines [THEN conjunct2, THEN conjunct2, THEN conjunct2, THEN conjunct1, rule_format]
  from assms(9,10) have "\<forall>i. l < i \<and> i \<le> l + (j - l) \<longrightarrow>
      get_text_start_column buf (i, 0) = Inr ?pc" by (simp add: me)
  from continuation_block_ge [OF anchor this] have "j - l \<le> k" by (simp add: k_def)
  with assms(9) have "l < j \<and> j \<le> l + k" by simp
  from inside [OF this] have ts: "get_text_start_column buf (j, 0) = Inr ?pc"
    and aa: "adjust_alignment sub buf (j, 0) = Inr (buf[j := buf1 ! j], (j, 0))"
    by simp_all
  from ts have tsc: "text_start_column_of (line_at buf j) = ?pc"
    by (simp add: get_text_start_column_eq)
  with anchor have nonblank: "line_text (line_at buf j) \<noteq> []"
    using text_start_column_of_blank [of "line_at buf j"] by simp
  have nl: "new_length_of sub (line_at buf j) = int (visual_column_from 0 A) + ?m + int (length B) + 1"
    using tsc pc by (simp add: new_length_of_def)
  then have nonneg: "0 \<le> new_length_of sub (line_at buf j)" by simp
  have jl: "j < length buf"
  proof (rule ccontr)
    assume "\<not> j < length buf"
    then have "line_at buf j = []" by (simp add: line_at_def)
    with nonblank show False by (simp add: line_text_def)
  qed
  from aa adjust_alignment_realigns [OF nonblank nonneg]
  have "buf[j := buf1 ! j] = buf[j := realigned_line sub (line_at buf j)]" by simp
  then have "buf[j := buf1 ! j] ! j = buf[j := realigned_line sub (line_at buf j)] ! j" by simp
  with jl have bj: "buf1 ! j = realigned_line sub (line_at buf j)" by simp
  have "get_text_start_column buf1 (j, 0) = Inr (text_start_column_of (buf1 ! j))"
    using jl ri(1) by (simp add: get_text_start_column_eq line_at_def)
  also have "\<dots> = Inr (new_length_of sub (line_at buf j))"
    by (simp add: bj text_start_column_of_realigned(1) [OF nonblank nonneg])
  also have "\<dots> = Inr (get_parenthesis_column buf1 it1)"
    by (simp add: nl pc1)
  finally have inv: "get_text_start_column buf1 (j, 0) = Inr (get_parenthesis_column buf1 it1)" .
  from line1 after inv show ?thesis by (intro conjI)
qed

theorem column_invariance_after_match_witness:
  "gtk_source_search_context_forward function_call_buf (search_text function_call_sub) (0, 0) =
     Some ((0, 0), (0, 13)) \<and>
   replace function_call_sub function_call_buf (0, 0) (0, 13) =
     Inr (map codepoints
            [''another_beautiful_name (param1,'',
             ''                        param2,'',
             ''                        param3);'',
             [],
             ''               param4''], (0, 22)) \<and>
   get_parenthesis_column
     (map codepoints
            [''another_beautiful_name (param1,'',
             ''                        param2,'',
             ''                        param3);'',
             [],
             ''               param4'']) (0, 22) = 24 \<and>
   get_text_start_column
     (map codepoints
            [''another_beautiful_name (param1,'',
             ''                        param2,'',
             ''                        param3);'',
             [],
             ''               param4'']) (2, 0) = Inr 24"
proof -
  let ?buf1 = "map codepoints
            [''another_beautiful_name (param1,'',
             ''                        param2,'',
             ''                        param3);'',
             [],
             ''               param4'']"
  have h1: "gtk_source_search_context_forward function_call_buf (search_text function_call_sub) (0, 0) =
     Some ((0, 0), (0, 13))"
    by (simp add: function_call_sub_def function_call_buf_def eval_search)
  have h2: "function_call_buf ! 0 =
      [] @ search_text function_call_sub @ [SPACE] @ LPAREN # codepoints ''param1,''"
    by (simp add: function_call_sub_def function_call_buf_def codepoints_def)
  have h3: "length ([]::ustring) = 0" by simp
  have h4: "LPAREN \<notin> set [SPACE]" by simp
  have h5: "TAB \<notin> set [SPACE]" by simp
  have h6: "TAB \<notin> set (search_text function_call_sub)"
    by (simp add: function_call_sub_def codepoints_def)
  have h7: "TAB \<notin> set (replacement function_call_sub)"
    by (simp add: function_call_sub_def codepoints_def)
  have h8: "replace function_call_sub function_call_buf (0, 0) (0, 13) = Inr (?buf1, (0, 22))"
    by (subst replace_eq)
       (simp_all add: Let_def function_call_sub_def function_call_buf_def eval_search eval_column eval_lines)
  have h9: "(0::nat) < 2" by simp
  have t1: "get_text_start_column function_call_buf (1, 0) =
      Inr (get_parenthesis_column function_call_buf (0, 13))"
    and t2: "get_text_start_column function_call_buf (2, 0) =
      Inr (get_parenthesis_column function_call_buf (0, 13))"
    by (simp_all add: function_call_buf_def eval_adjust eval_column)
  have h10: "\<forall>i. 0 < i \<and> i \<le> 2 \<longrightarrow> get_text_start_column function_call_buf (i, 0) =
      Inr (get_parenthesis_column function_call_buf (0, 13))"
  proof (intro allI impI)
    fix i :: nat assume "0 < i \<and> i \<le> 2"
    then have "i = 1 \<or> i = 2" by auto
    with t1 t2 show "get_text_start_column function_call_buf (i, 0) =
      Inr (get_parenthesis_column function_call_buf (0, 13))" by auto
  qed
  have h11: "single_line (search_text function_call_sub)"
    by (simp add: single_line_def line_terminator_def function_call_sub_def codepoints_def)
  have h12: "single_line (replacement function_call_sub)"
    by (simp add: single_line_def line_terminator_def function_call_sub_def codepoints_def)
  note t = column_invariance_after_match [OF h1 h2 h3 h4 h5 h6 h7 h8 h9 h10 h11 h12]
  have pc: "get_parenthesis_column ?buf1 (0, 22) = 24"
    by (simp add: eval_column)
  from t [THEN conjunct2, THEN conjunct2] pc
  have "get_text_start_column ?buf1 (2, 0) = Inr 24" by simp
  with h1 h8 pc show ?thesis by (intro conjI)
qed

text \<open>
  The claim as the specification words it fails in two ways.  When a tab stands
  between the replaced text and the parenthesis, the tab takes up the longer name:
  the parenthesis stays at column 8 (the column after it is 9), and the
  continuation line, which started at column 9, is moved to column 10.  And a later
  match of the same run can move a line that an earlier match has realigned: with
  an empty replacement, the match at the start of the text of the continuation line
  is removed after the line was realigned to column 2, and its text then starts at
  column 3.
\<close>

theorem column_invariance_fails:
  "do_substitution f_sub
     [codepoints ''f'' @ [TAB] @ codepoints ''(a,'', [TAB, SPACE] @ codepoints ''b);''] =
     Inr [codepoints ''ff'' @ [TAB] @ codepoints ''(a,'', [TAB, SPACE, SPACE] @ codepoints ''b);''] \<and>
   get_text_start_column
     [codepoints ''f'' @ [TAB] @ codepoints ''(a,'', [TAB, SPACE] @ codepoints ''b);''] (1, 0) =
     Inr (get_parenthesis_column
       [codepoints ''f'' @ [TAB] @ codepoints ''(a,'', [TAB, SPACE] @ codepoints ''b);''] (0, 1)) \<and>
   (codepoints ''ff'' @ [TAB] @ codepoints ''(a,'') ! 3 = LPAREN \<and>
   gtk_source_view_get_visual_column
     [codepoints ''ff'' @ [TAB] @ codepoints ''(a,'', [TAB, SPACE, SPACE] @ codepoints ''b);'']
     (0, 3) = 8 \<and>
   get_parenthesis_column
     [codepoints ''ff'' @ [TAB] @ codepoints ''(a,'', [TAB, SPACE, SPACE] @ codepoints ''b);'']
     (0, 2) = 9 \<and>
   get_text_start_column
     [codepoints ''ff'' @ [TAB] @ codepoints ''(a,'', [TAB, SPACE, SPACE] @ codepoints ''b);'']
     (1, 0) = Inr 10 \<and>
   do_substitution delete_sub (map codepoints [''foo (a,'', ''     foo b'']) =
     Inr (map codepoints ['' (a,'', ''   b'']) \<and>
   get_text_start_column (map codepoints [''foo (a,'', ''     foo b'']) (1, 0) =
     Inr (get_parenthesis_column (map codepoints [''foo (a,'', ''     foo b'']) (0, 3)) \<and>
   codepoints '' (a,'' ! 1 = LPAREN \<and>
   gtk_source_view_get_visual_column (map codepoints ['' (a,'', ''   b'']) (0, 1) = 1 \<and>
   get_parenthesis_column (map codepoints ['' (a,'', ''   b'']) (0, 0) = 2 \<and>
   get_text_start_column (map codepoints ['' (a,'', ''   b'']) (1, 0) = Inr 3"
proof -
  let ?buf = "[codepoints ''f'' @ [TAB] @ codepoints ''(a,'', [TAB, SPACE] @ codepoints ''b);'']"
  let ?buf1 = "[codepoints ''ff'' @ [TAB] @ codepoints ''(a,'', [TAB, SPACE, SPACE] @ codepoints ''b);'']"
  have s1: "gtk_source_search_context_forward ?buf (search_text f_sub) (0, 0) = Some ((0, 0), (0, 1))"
    by (simp add: f_sub_def eval_search)
  have r1: "replace f_sub ?buf (0, 0) (0, 1) = Inr (?buf1, (0, 2))"
    by (subst replace_eq) (simp_all add: Let_def f_sub_def eval_search eval_column eval_lines)
  have s2: "gtk_source_search_context_forward ?buf1 (search_text f_sub) (0, 2) = None"
    by (simp add: f_sub_def eval_search)
  have run: "do_substitution f_sub ?buf = Inr ?buf1"
    unfolding do_substitution_def
    by (simp only: do_substitution_loop_Some [OF s1 r1] do_substitution_loop_None [OF s2])
  have before: "get_text_start_column ?buf (1, 0) = Inr (get_parenthesis_column ?buf (0, 1))"
    by (simp add: eval_adjust eval_column)
  have paren: "(codepoints ''ff'' @ [TAB] @ codepoints ''(a,'') ! 3 = LPAREN"
    by (simp add: codepoints_def)
  have c1: "gtk_source_view_get_visual_column ?buf1 (0, 3) = 8"
    by (simp add: eval_column)
  have c2: "get_parenthesis_column ?buf1 (0, 2) = 9"
    by (simp add: eval_column)
  have c3: "get_text_start_column ?buf1 (1, 0) = Inr 10"
    by (simp add: eval_adjust)
  let ?dbuf = "map codepoints [''foo (a,'', ''     foo b'']"
  let ?dbuf1 = "map codepoints ['' (a,'', ''  foo b'']"
  let ?dbuf2 = "map codepoints ['' (a,'', ''   b'']"
  have ds1: "gtk_source_search_context_forward ?dbuf (search_text delete_sub) (0, 0) =
      Some ((0, 0), (0, 3))"
    by (simp add: delete_sub_def eval_search)
  have dr1: "replace delete_sub ?dbuf (0, 0) (0, 3) = Inr (?dbuf1, (0, 0))"
    by (subst replace_eq) (simp_all add: Let_def delete_sub_def eval_search eval_column eval_lines)
  have ds2: "gtk_source_search_context_forward ?dbuf1 (search_text delete_sub) (0, 0) =
      Some ((1, 2), (1, 5))"
    by (simp add: delete_sub_def eval_search)
  have dr2: "replace delete_sub ?dbuf1 (1, 2) (1, 5) = Inr (?dbuf2, (1, 2))"
    by (subst replace_eq) (simp_all add: Let_def delete_sub_def eval_search eval_column eval_lines)
  have ds3: "gtk_source_search_context_forward ?dbuf2 (search_text delete_sub) (1, 2) = None"
    by (simp add: delete_sub_def eval_search)
  have drun: "do_substitution delete_sub ?dbuf = Inr ?dbuf2"
    unfolding do_substitution_def
    by (simp only: do_substitution_loop_Some [OF ds1 dr1] do_substitution_loop_Some [OF ds2 dr2]
        do_substitution_loop_None [OF ds3])
  have dbefore: "get_text_start_column ?dbuf (1, 0) = Inr (get_parenthesis_column ?dbuf (0, 3))"
    by (simp add: eval_adjust eval_column)
  have dparen: "codepoints '' (a,'' ! 1 = LPAREN"
    by (simp add: codepoints_def)
  have d1: "gtk_source_view_get_visual_column ?dbuf2 (0, 1) = 1"
    by (simp add: eval_column)
  have d2: "get_parenthesis_column ?dbuf2 (0, 0) = 2"
    by (simp add: eval_column)
  have d3: "get_text_start_column ?dbuf2 (1, 0) = Inr 3"
    by (simp add: eval_adjust)
  from run before paren c1 c2 c3 drun dbefore dparen d1 d2 d3 show ?thesis by (intro conjI)
qed

subsection \<open>C3: realigning one line\<close>

text \<open>
  C3.  \<^verbatim>\<open>adjust_alignment\<close> on a line whose text starts at column
  \<open>old_start_col\<close>: the whole leading whitespace run goes, and the new indentation
  has the width \<open>new_start_col\<close>, the old column plus the length of the replacement
  minus the length of the search text, both counted in code points.  It is made of
  \<open>new_start_col div 8\<close> tabs and \<open>new_start_col mod 8\<close> spaces when the run held
  a tab, and of \<open>new_start_col\<close> spaces otherwise.
\<close>

theorem adjust_alignment_realigns_line:
  assumes "get_text_start_column buf (l, 0) = Inr old_start_col" and "old_start_col \<noteq> - 1"
    and "new_start_col =
           old_start_col + (int (length (replacement sub)) - int (length (search_text sub)))"
    and "0 \<le> new_start_col"
  shows "adjust_alignment sub buf (l, 0) =
           Inr (buf[l := (if TAB \<in> set (takeWhile g_unichar_isspace (line_at buf l))
                          then replicate (nat (new_start_col div 8)) TAB @
                               replicate (nat (new_start_col mod 8)) SPACE
                          else replicate (nat new_start_col) SPACE) @
                         dropWhile g_unichar_isspace (line_at buf l)],
                (l, 0)) \<and>
         visual_column_from 0
           (if TAB \<in> set (takeWhile g_unichar_isspace (line_at buf l))
            then replicate (nat (new_start_col div 8)) TAB @
                 replicate (nat (new_start_col mod 8)) SPACE
            else replicate (nat new_start_col) SPACE) = nat new_start_col"
proof -
  from assms(1) have old: "text_start_column_of (line_at buf l) = old_start_col"
    by (simp add: get_text_start_column_eq)
  with assms(2) have nonblank: "line_text (line_at buf l) \<noteq> []"
    using text_start_column_of_blank [of "line_at buf l"] by simp
  from old assms(3) have n: "new_length_of sub (line_at buf l) = new_start_col"
    by (simp add: new_length_of_def)
  with assms(4) have "0 \<le> new_length_of sub (line_at buf l)" by simp
  from adjust_alignment_realigns [OF nonblank this]
  have "adjust_alignment sub buf (l, 0) =
          Inr (buf[l := realigned_line sub (line_at buf l)], (l, 0))" .
  moreover have "visual_column_from 0
      (new_indentation (TAB \<in> set (takeWhile g_unichar_isspace (line_at buf l))) new_start_col) =
      nat new_start_col"
    by (rule visual_column_new_indentation [OF assms(4)])
  ultimately show ?thesis
    by (simp add: realigned_line_def n new_indentation_def leading_whitespace_def line_text_def)
qed

theorem adjust_alignment_realigns_line_witness:
  "get_text_start_column tab_buf (1, 0) = Inr 8 \<and>
   adjust_alignment tab_sub tab_buf (1, 0) =
     Inr ([codepoints ''foobar (a,'', [TAB, SPACE, SPACE, SPACE] @ codepoints ''b);'',
           codepoints ''c''], (1, 0))"
proof -
  have h1: "get_text_start_column tab_buf (1, 0) = Inr 8"
    by (simp add: tab_buf_def eval_adjust)
  have h2: "(8::int) \<noteq> - 1" by simp
  have h3: "(11::int) = 8 + (int (length (replacement tab_sub)) - int (length (search_text tab_sub)))"
    by (simp add: tab_sub_def codepoints_def)
  have h4: "(0::int) \<le> 11" by simp
  from adjust_alignment_realigns_line [OF h1 h2 h3 h4] h1 show ?thesis
    by (simp add: tab_buf_def line_at_def g_unichar_isspace_def codepoints_def replicate_numeral)
qed

subsection \<open>C4: the block of continuation lines\<close>

text \<open>
  C4.  For a match with an anchor column \<open>pc\<close>, let the \<open>k\<close> lines after the line
  of the match start at column \<open>pc\<close>, and let line \<open>l + k + 1\<close>, if there is one,
  have no text or start at another column.  Then \<^verbatim>\<open>replace\<close> realigns exactly
  those \<open>k\<close> lines, each as \<^verbatim>\<open>adjust_alignment\<close> does; from line \<open>l + k + 1\<close> on
  the buffer is unchanged, as it is before the line of the match; and on the line of
  the match only the match is replaced.
\<close>

theorem replace_realigns_maximal_block:
  assumes "gtk_source_search_context_forward buf (search_text sub) iter = Some ((l, s), (l', e))"
    and "get_parenthesis_column buf (l', e) = pc" and "pc \<noteq> - 1"
    and "replace sub buf (l, s) (l', e) = Inr (buf1, it1)"
    and "\<forall>j. l < j \<and> j \<le> l + k \<longrightarrow> get_text_start_column buf (j, 0) = Inr pc"
    and "l + k + 1 < length buf \<longrightarrow> get_text_start_column buf (l + k + 1, 0) \<noteq> Inr pc"
  shows "length buf1 = length buf \<and>
         (\<forall>j<l. buf1 ! j = buf ! j) \<and>
         buf1 ! l = take s (buf ! l) @ replacement sub @ drop e (buf ! l) \<and>
         (\<forall>j. l < j \<and> j \<le> l + k \<longrightarrow>
            adjust_alignment sub buf (j, 0) = Inr (buf[j := buf1 ! j], (j, 0))) \<and>
         (\<forall>j. l + k < j \<and> j < length buf \<longrightarrow> buf1 ! j = buf ! j)"
proof -
  have k: "k = length (continuation_block pc buf l)"
    by (rule continuation_block_length [OF assms(3,5,6)])
  note lines = replace_lines [OF assms(1-4) k]
  from lines show ?thesis by blast
qed

theorem replace_realigns_maximal_block_witness:
  "gtk_source_search_context_forward function_call_buf (search_text function_call_sub) (0, 0) =
     Some ((0, 0), (0, 13)) \<and>
   get_parenthesis_column function_call_buf (0, 13) = 15 \<and>
   replace function_call_sub function_call_buf (0, 0) (0, 13) =
     Inr (map codepoints
            [''another_beautiful_name (param1,'',
             ''                        param2,'',
             ''                        param3);'',
             [],
             ''               param4''], (0, 22)) \<and>
   get_text_start_column function_call_buf (1, 0) = Inr 15 \<and>
   get_text_start_column function_call_buf (2, 0) = Inr 15 \<and>
   get_text_start_column function_call_buf (3, 0) \<noteq> Inr 15 \<and>
   adjust_alignment function_call_sub function_call_buf (2, 0) =
     Inr (function_call_buf[2 := codepoints ''                        param3);''], (2, 0))"
proof -
  let ?buf1 = "map codepoints
            [''another_beautiful_name (param1,'',
             ''                        param2,'',
             ''                        param3);'',
             [],
             ''               param4'']"
  have h1: "gtk_source_search_context_forward function_call_buf (search_text function_call_sub)
      (0, 0) = Some ((0, 0), (0, 13))"
    by (simp add: function_call_sub_def function_call_buf_def eval_search)
  have h2: "get_parenthesis_column function_call_buf (0, 13) = 15"
    by (simp add: function_call_buf_def eval_column)
  have h3: "(15::int) \<noteq> - 1" by simp
  have h4: "replace function_call_sub function_call_buf (0, 0) (0, 13) = Inr (?buf1, (0, 22))"
    by (subst replace_eq)
       (simp_all add: Let_def function_call_sub_def function_call_buf_def eval_search
          eval_column eval_lines)
  have t1: "get_text_start_column function_call_buf (1, 0) = Inr 15"
    and t2: "get_text_start_column function_call_buf (2, 0) = Inr 15"
    and t3: "get_text_start_column function_call_buf (3, 0) \<noteq> Inr 15"
    by (simp_all add: function_call_buf_def eval_adjust)
  have h5: "\<forall>j. 0 < j \<and> j \<le> 0 + 2 \<longrightarrow> get_text_start_column function_call_buf (j, 0) = Inr 15"
  proof (intro allI impI)
    fix j :: nat assume "0 < j \<and> j \<le> 0 + 2"
    then have "j = 1 \<or> j = 2" by auto
    with t1 t2 show "get_text_start_column function_call_buf (j, 0) = Inr 15" by auto
  qed
  have e3: "(0::nat) + 2 + 1 = 3" by simp
  have h6: "0 + 2 + 1 < length function_call_buf \<longrightarrow>
      get_text_start_column function_call_buf (0 + 2 + 1, 0) \<noteq> Inr 15"
    unfolding e3 using t3 by simp
  note block = replace_realigns_maximal_block [OF h1 h2 h3 h4 h5 h6]
  note inside = block [THEN conjunct2, THEN conjunct2, THEN conjunct2, THEN conjunct1, rule_format]
  have "(0::nat) < 2 \<and> (2::nat) \<le> 0 + 2" by simp
  from inside [OF this]
  have "adjust_alignment function_call_sub function_call_buf (2, 0) =
          Inr (function_call_buf[2 := ?buf1 ! 2], (2, 0))" .
  then have c: "adjust_alignment function_call_sub function_call_buf (2, 0) =
     Inr (function_call_buf[2 := codepoints ''                        param3);''], (2, 0))"
    by simp
  from h1 h2 h4 t1 t2 t3 c show ?thesis by (intro conjI)
qed

subsection \<open>C5: where the anchor column comes from\<close>

text \<open>
  C5, as the code has it.  \<^verbatim>\<open>replace\<close> calls \<^verbatim>\<open>get_parenthesis_column\<close> before
  it replaces the match, and compares the following lines with that value: every
  line after the line of the match that \<^verbatim>\<open>replace\<close> changes started, before the
  call, at the column after the parenthesis as it stood in the text not yet
  replaced.
\<close>

theorem anchor_column_from_unreplaced_text:
  assumes "gtk_source_search_context_forward buf (search_text sub) iter = Some ((l, s), (l', e))"
    and "replace sub buf (l, s) (l', e) = Inr (buf1, it1)"
    and "l < j" and "j < length buf" and "buf1 ! j \<noteq> buf ! j"
  shows "get_text_start_column buf (j, 0) = Inr (get_parenthesis_column buf (l', e))"
proof -
  let ?pc = "get_parenthesis_column buf (l', e)"
  define k where "k = length (continuation_block ?pc buf l)"
  have anchor: "?pc \<noteq> - 1"
  proof
    assume "?pc = - 1"
    with assms(2) have "buf1 = buf[l := take s (buf ! l) @ replacement sub @ drop e (buf ! l)]"
      by (simp add: replace_eq [OF forward_at_match [OF assms(1)]])
    with assms(3) have "buf1 ! j = buf ! j" by simp
    with assms(5) show False by simp
  qed
  note lines = replace_lines [OF assms(1) refl anchor assms(2) k_def]
  note inside = lines [THEN conjunct2, THEN conjunct2, THEN conjunct2, THEN conjunct1, rule_format]
  note after = lines [THEN conjunct2, THEN conjunct2, THEN conjunct2, THEN conjunct2,
      THEN conjunct2, rule_format]
  have "j \<le> l + k"
  proof (rule ccontr)
    assume "\<not> j \<le> l + k"
    with assms(4) have "l + k < j \<and> j < length buf" by simp
    from after [OF this] assms(5) show False by simp
  qed
  with assms(3) have "l < j \<and> j \<le> l + k" by simp
  from inside [OF this] show ?thesis by simp
qed

theorem anchor_column_from_unreplaced_text_witness:
  "gtk_source_search_context_forward function_call_buf (search_text function_call_sub) (0, 0) =
     Some ((0, 0), (0, 13)) \<and>
   replace function_call_sub function_call_buf (0, 0) (0, 13) =
     Inr (map codepoints
            [''another_beautiful_name (param1,'',
             ''                        param2,'',
             ''                        param3);'',
             [],
             ''               param4''], (0, 22)) \<and>
   get_text_start_column function_call_buf (1, 0) =
     Inr (get_parenthesis_column function_call_buf (0, 13))"
proof -
  let ?buf1 = "map codepoints
            [''another_beautiful_name (param1,'',
             ''                        param2,'',
             ''                        param3);'',
             [],
             ''               param4'']"
  have h1: "gtk_source_search_context_forward function_call_buf (search_text function_call_sub)
      (0, 0) = Some ((0, 0), (0, 13))"
    by (simp add: function_call_sub_def function_call_buf_def eval_search)
  have h3: "replace function_call_sub function_call_buf (0, 0) (0, 13) = Inr (?buf1, (0, 22))"
    by (subst replace_eq)
       (simp_all add: Let_def function_call_sub_def function_call_buf_def eval_search eval_column eval_lines)
  have h4: "(0::nat) < 1" by simp
  have h5: "1 < length function_call_buf" by (simp add: function_call_buf_def)
  have h6: "?buf1 ! 1 \<noteq> function_call_buf ! 1"
    by (simp add: function_call_buf_def codepoints_def)
  from anchor_column_from_unreplaced_text [OF h1 h3 h4 h5 h6] h1 h3 show ?thesis
    by (simp only: simp_thms)
qed

text \<open>
  The claim as the specification words it fails on the scenario of the header
  comment: the anchor column read before the replacement is 15; once the match is
  replaced, the column after the parenthesis is 24; the second line, which starts
  at column 15, is realigned.
\<close>

theorem anchor_column_not_rederived:
  "gtk_source_search_context_forward
     (map codepoints [''function_call (param1,'', ''               param2,''])
     (search_text function_call_sub) (0, 0) = Some ((0, 0), (0, 13)) \<and>
   get_parenthesis_column
     (map codepoints [''function_call (param1,'', ''               param2,'']) (0, 13) = 15 \<and>
   gtk_source_search_context_replace
     (map codepoints [''function_call (param1,'', ''               param2,''])
     (search_text function_call_sub) (0, 0) (0, 13) (replacement function_call_sub) =
     (map codepoints [''another_beautiful_name (param1,'', ''               param2,''], (0, 22)) \<and>
   get_parenthesis_column
     (map codepoints [''another_beautiful_name (param1,'', ''               param2,''])
     (0, 22) = 24 \<and>
   get_text_start_column
     (map codepoints [''function_call (param1,'', ''               param2,'']) (1, 0) = Inr 15 \<and>
   replace function_call_sub
     (map codepoints [''function_call (param1,'', ''               param2,'']) (0, 0) (0, 13) =
     Inr (map codepoints [''another_beautiful_name (param1,'',
                          ''                        param2,''], (0, 22))"
proof -
  let ?buf = "map codepoints [''function_call (param1,'', ''               param2,'']"
  let ?buf' = "map codepoints [''another_beautiful_name (param1,'', ''               param2,'']"
  have m: "gtk_source_search_context_forward ?buf (search_text function_call_sub) (0, 0) =
      Some ((0, 0), (0, 13))"
    by (simp add: function_call_sub_def eval_search)
  have pc: "get_parenthesis_column ?buf (0, 13) = 15"
    by (simp add: eval_column)
  have sr: "gtk_source_search_context_replace ?buf (search_text function_call_sub) (0, 0) (0, 13)
      (replacement function_call_sub) = (?buf', (0, 22))"
    by (subst search_context_replace_eq [OF m]) (simp add: function_call_sub_def codepoints_def)
  have pc': "get_parenthesis_column ?buf' (0, 22) = 24"
    by (simp add: eval_column)
  have ts: "get_text_start_column ?buf (1, 0) = Inr 15"
    by (simp add: eval_adjust)
  have r: "replace function_call_sub ?buf (0, 0) (0, 13) =
     Inr (map codepoints [''another_beautiful_name (param1,'',
                          ''                        param2,''], (0, 22))"
    by (subst replace_eq)
       (simp_all add: Let_def function_call_sub_def eval_search eval_column eval_lines)
  from m pc sr pc' ts r show ?thesis by (intro conjI)
qed

subsection \<open>C6: a match with no parenthesis after it\<close>

text \<open>
  C6.  When the line of the match has no \<^verbatim>\<open>(\<close> from the end of the match on,
  \<^verbatim>\<open>replace\<close> substitutes on that line and touches no other line.  For the
  text \<^verbatim>\<open>foo\nbar\n\<close>, the substitution of \<^verbatim>\<open>foo\<close> by \<^verbatim>\<open>longfoo\<close> gives
  \<^verbatim>\<open>longfoo\nbar\n\<close>.
\<close>

theorem no_parenthesis_plain_substitution:
  "(gtk_source_search_context_forward buf (search_text sub) iter = Some ((l, s), (l, e)) \<and>
    LPAREN \<notin> set (drop e (buf ! l)) \<longrightarrow>
      replace sub buf (l, s) (l, e) =
        Inr (buf[l := take s (buf ! l) @ replacement sub @ drop e (buf ! l)],
             (l, s + length (replacement sub)))) \<and>
   do_substitution longfoo_sub (map codepoints [''foo'', ''bar'', []]) =
   Inr (map codepoints [''longfoo'', ''bar'', []])"
proof (intro conjI impI)
  assume "gtk_source_search_context_forward buf (search_text sub) iter = Some ((l, s), (l, e)) \<and>
    LPAREN \<notin> set (drop e (buf ! l))"
  then have fw: "gtk_source_search_context_forward buf (search_text sub) iter = Some ((l, s), (l, e))"
    and np: "LPAREN \<notin> set (drop e (buf ! l))" by simp_all
  from forward_Some(4) [OF fw] have "l < length buf" by simp
  with np have "get_parenthesis_column buf (l, e) = - 1"
    by (simp add: get_parenthesis_column_eq line_at_def)
  then show "replace sub buf (l, s) (l, e) =
        Inr (buf[l := take s (buf ! l) @ replacement sub @ drop e (buf ! l)],
             (l, s + length (replacement sub)))"
    by (simp add: replace_eq [OF forward_at_match [OF fw]])
next
  let ?sub = longfoo_sub
  let ?buf = "map codepoints [''foo'', ''bar'', []]"
  let ?buf1 = "map codepoints [''longfoo'', ''bar'', []]"
  have s1: "gtk_source_search_context_forward ?buf (search_text ?sub) (0, 0) = Some ((0, 0), (0, 3))"
    by (simp add: longfoo_sub_def eval_search)
  have r1: "replace ?sub ?buf (0, 0) (0, 3) = Inr (?buf1, (0, 7))"
    by (subst replace_eq)
       (simp_all add: Let_def longfoo_sub_def eval_search eval_column eval_lines)
  have s2: "gtk_source_search_context_forward ?buf1 (search_text ?sub) (0, 7) = None"
    by (simp add: longfoo_sub_def eval_search)
  show "do_substitution ?sub ?buf = Inr ?buf1"
    unfolding do_substitution_def
    by (simp only: do_substitution_loop_Some [OF s1 r1] do_substitution_loop_None [OF s2])
qed

theorem no_parenthesis_plain_substitution_witness:
  "gtk_source_search_context_forward (map codepoints [''bar foo'', ''    (x''])
     (search_text longfoo_sub) (0, 0) = Some ((0, 4), (0, 7)) \<and>
   LPAREN \<notin> set (drop 7 (map codepoints [''bar foo'', ''    (x''] ! 0)) \<and>
   replace longfoo_sub (map codepoints [''bar foo'', ''    (x'']) (0, 4) (0, 7) =
   Inr (map codepoints [''bar longfoo'', ''    (x''], (0, 11))"
proof -
  let ?buf = "map codepoints [''bar foo'', ''    (x'']"
  have h: "gtk_source_search_context_forward ?buf (search_text longfoo_sub) (0, 0) =
      Some ((0, 4), (0, 7)) \<and> LPAREN \<notin> set (drop 7 (?buf ! 0))"
    by (simp add: longfoo_sub_def eval_search)
  from no_parenthesis_plain_substitution [of ?buf longfoo_sub "(0, 0)" 0 4 7,
      THEN conjunct1, rule_format, OF h]
  have "replace longfoo_sub ?buf (0, 4) (0, 7) =
      Inr (map codepoints [''bar longfoo'', ''    (x''], (0, 11))"
    by (simp add: longfoo_sub_def codepoints_def)
  with h show ?thesis by (simp only: simp_thms)
qed

subsection \<open>C7: a negative indentation width\<close>



subsection \<open>C8: the search goes on after the replacement\<close>

text \<open>
  C8.  When the search has found a match and \<^verbatim>\<open>replace\<close> has returned, the
  iterator that \<^verbatim>\<open>do_substitution\<close> searches from next stands right after the
  inserted replacement (at the start of the match plus the length of the
  replacement, not of the search text); the line up to there is the old line up to
  the match followed by the replacement, the rest of the line is what followed the
  match, and the lines before are as they were.  The next match, if there is one,
  starts at or after that iterator.
\<close>

theorem search_resumes_after_replacement:
  assumes "gtk_source_search_context_forward buf (search_text sub) iter = Some (ms, me)"
    and "replace sub buf ms me = Inr (buf1, me1)"
  shows "me = (fst ms, snd ms + length (search_text sub)) \<and>
         me1 = (fst ms, snd ms + length (replacement sub)) \<and>
         take (snd me1) (buf1 ! fst me1) = take (snd ms) (buf ! fst ms) @ replacement sub \<and>
         drop (snd me1) (buf1 ! fst me1) = drop (snd me) (buf ! fst ms) \<and>
         take (fst ms) buf1 = take (fst ms) buf \<and>
         do_substitution_loop sub buf iter = do_substitution_loop sub buf1 me1 \<and>
         (\<forall>ms' me'. gtk_source_search_context_forward buf1 (search_text sub) me1 = Some (ms', me')
            \<longrightarrow> fst me1 < fst ms' \<or> (fst ms' = fst me1 \<and> snd me1 \<le> snd ms'))"
proof -
  obtain l s where ms: "ms = (l, s)" by (cases ms)
  obtain l' e where me: "me = (l', e)" by (cases me)
  note f = forward_Some [OF assms(1)]
  from f ms me have l: "l < length buf" and l': "l' = l"
    and e: "e = s + length (search_text sub)" and el: "e \<le> length (buf ! l)"
    by auto
  then have s: "s \<le> length (buf ! l)" by simp
  from forward_at_match [OF assms(1)]
  have m: "gtk_source_search_context_forward buf (search_text sub) (l, s) = Some ((l, s), (l', e))"
    by (simp add: ms me)
  from assms(2) have "replace sub buf (l, s) (l', e) = Inr (buf1, me1)" by (simp add: ms me)
  note r = replace_Inr [OF this m]
  have a: "me = (fst ms, snd ms + length (search_text sub))"
    by (simp add: ms me l' e)
  have b: "me1 = (fst ms, snd ms + length (replacement sub))"
    by (simp add: r(2) ms)
  have c: "take (snd me1) (buf1 ! fst me1) = take (snd ms) (buf ! fst ms) @ replacement sub"
    using s by (simp add: r(2,3) ms)
  have d: "drop (snd me1) (buf1 ! fst me1) = drop (snd me) (buf ! fst ms)"
    using s by (simp add: r(2,3) ms me)
  have t: "take (fst ms) buf1 = take (fst ms) buf"
    by (simp add: r(4) ms)
  have g: "do_substitution_loop sub buf iter = do_substitution_loop sub buf1 me1"
    by (rule do_substitution_loop_Some [OF assms])
  have h: "fst me1 < fst ms' \<or> (fst ms' = fst me1 \<and> snd me1 \<le> snd ms')"
    if "gtk_source_search_context_forward buf1 (search_text sub) me1 = Some (ms', me')"
    for ms' me'
    using forward_Some(3,7) [OF that] by auto
  from a b c d t g h show ?thesis by blast
qed

theorem search_resumes_after_replacement_witness:
  "gtk_source_search_context_forward [codepoints ''foo foo''] (search_text foo_sub) (0, 0) =
     Some ((0, 0), (0, 3)) \<and>
   replace foo_sub [codepoints ''foo foo''] (0, 0) (0, 3) =
     Inr ([codepoints ''foofoo foo''], (0, 6)) \<and>
   do_substitution_loop foo_sub [codepoints ''foo foo''] (0, 0) =
     do_substitution_loop foo_sub [codepoints ''foofoo foo''] (0, 6) \<and>
   gtk_source_search_context_forward [codepoints ''foofoo foo''] (search_text foo_sub) (0, 6) =
     Some ((0, 7), (0, 10)) \<and>
   do_substitution foo_sub [codepoints ''foo foo''] = Inr [codepoints ''foofoo foofoo'']"
proof -
  let ?buf = "[codepoints ''foo foo'']"
  let ?buf1 = "[codepoints ''foofoo foo'']"
  let ?buf2 = "[codepoints ''foofoo foofoo'']"
  have s1: "gtk_source_search_context_forward ?buf (search_text foo_sub) (0, 0) = Some ((0, 0), (0, 3))"
    by (simp add: foo_sub_def eval_search)
  have r1: "replace foo_sub ?buf (0, 0) (0, 3) = Inr (?buf1, (0, 6))"
    by (subst replace_eq) (simp_all add: Let_def foo_sub_def eval_search eval_column eval_lines)
  from search_resumes_after_replacement [OF s1 r1]
  have step: "do_substitution_loop foo_sub ?buf (0, 0) = do_substitution_loop foo_sub ?buf1 (0, 6)"
    by simp
  have s2: "gtk_source_search_context_forward ?buf1 (search_text foo_sub) (0, 6) = Some ((0, 7), (0, 10))"
    by (simp add: foo_sub_def eval_search)
  have r2: "replace foo_sub ?buf1 (0, 7) (0, 10) = Inr (?buf2, (0, 13))"
    by (subst replace_eq) (simp_all add: Let_def foo_sub_def eval_search eval_column eval_lines)
  have s3: "gtk_source_search_context_forward ?buf2 (search_text foo_sub) (0, 13) = None"
    by (simp add: foo_sub_def eval_search)
  have "do_substitution foo_sub ?buf = Inr ?buf2"
    unfolding do_substitution_def step
    by (simp only: do_substitution_loop_Some [OF s2 r2] do_substitution_loop_None [OF s3])
  with s1 r1 step s2 show ?thesis by simp
qed

subsection \<open>C9: the exit status of the command\<close>




subsection \<open>C10: the anchor column is the column after the parenthesis\<close>

text \<open>
  C10.  Let \<open>p\<close> be the place of the first \<^verbatim>\<open>(\<close> at or after the end of the
  match on its line.  The column that \<^verbatim>\<open>get_parenthesis_column\<close> returns is the
  visual column of the position after that character, one more than the visual
  column of the character itself; and \<^verbatim>\<open>replace\<close> realigns the next line when
  its text starts at that column, and leaves it as it is when it starts anywhere
  else.
\<close>

theorem anchor_column_after_parenthesis:
  assumes "gtk_source_search_context_forward buf (search_text sub) iter = Some ((l, s), (l, e))"
    and "e \<le> p" and "p < length (buf ! l)" and "buf ! l ! p = LPAREN"
    and "\<forall>i. e \<le> i \<and> i < p \<longrightarrow> buf ! l ! i \<noteq> LPAREN"
    and "replace sub buf (l, s) (l, e) = Inr (buf1, it1)" and "l + 1 < length buf"
  shows "get_parenthesis_column buf (l, e) = gtk_source_view_get_visual_column buf (l, p + 1) \<and>
         get_parenthesis_column buf (l, e) = gtk_source_view_get_visual_column buf (l, p) + 1 \<and>
         (if get_text_start_column buf (l + 1, 0) =
               Inr (gtk_source_view_get_visual_column buf (l, p) + 1)
          then adjust_alignment sub buf (l + 1, 0) = Inr (buf[l + 1 := buf1 ! (l + 1)], (l + 1, 0))
          else buf1 ! (l + 1) = buf ! (l + 1))"
proof -
  let ?pc = "get_parenthesis_column buf (l, e)"
  from forward_Some(4) [OF assms(1)] have l: "l < length buf" by simp
  define k where "k = length (continuation_block ?pc buf l)"
  have pc: "?pc = int (visual_column_from 0 (take (p + 1) (buf ! l)))"
    by (rule get_parenthesis_column_anchor [OF l assms(2-5)])
  then have a: "?pc = gtk_source_view_get_visual_column buf (l, p + 1)"
    using l by (simp add: gtk_source_view_get_visual_column_def line_at_def)
  have "take (p + 1) (buf ! l) = take p (buf ! l) @ [LPAREN]"
    using assms(3,4) by (simp add: take_Suc_conv_app_nth)
  then have b: "?pc = gtk_source_view_get_visual_column buf (l, p) + 1"
    using l
    by (simp add: pc gtk_source_view_get_visual_column_def line_at_def visual_column_from_snoc)
  from pc have anchor: "?pc \<noteq> - 1" by simp
  note lines = replace_lines [OF assms(1) refl anchor assms(6) k_def]
  note inside = lines [THEN conjunct2, THEN conjunct2, THEN conjunct2, THEN conjunct1, rule_format]
  note stop = lines [THEN conjunct2, THEN conjunct2, THEN conjunct2, THEN conjunct2,
      THEN conjunct1, rule_format]
  note after = lines [THEN conjunct2, THEN conjunct2, THEN conjunct2, THEN conjunct2,
      THEN conjunct2, rule_format]
  have c: "if get_text_start_column buf (l + 1, 0) = Inr ?pc
          then adjust_alignment sub buf (l + 1, 0) = Inr (buf[l + 1 := buf1 ! (l + 1)], (l + 1, 0))
          else buf1 ! (l + 1) = buf ! (l + 1)"
  proof (cases "get_text_start_column buf (l + 1, 0) = Inr ?pc")
    case True
    have "k \<noteq> 0"
    proof
      assume "k = 0"
      with stop assms(7) have "get_text_start_column buf (l + 1, 0) \<noteq> Inr ?pc" by simp
      with True show False by simp
    qed
    then have "l < l + 1 \<and> l + 1 \<le> l + k" by simp
    from inside [OF this] have "adjust_alignment sub buf (l + 1, 0) =
        Inr (buf[l + 1 := buf1 ! (l + 1)], (l + 1, 0))" by simp
    then show ?thesis by (subst if_P [OF True])
  next
    case False
    have "k = 0"
    proof (rule ccontr)
      assume "k \<noteq> 0"
      then have "l < l + 1 \<and> l + 1 \<le> l + k" by simp
      from inside [OF this] False show False by simp
    qed
    with after [of "l + 1"] assms(7) have "buf1 ! (l + 1) = buf ! (l + 1)" by simp
    then show ?thesis by (subst if_not_P [OF False])
  qed
  from c have c': "if get_text_start_column buf (l + 1, 0) =
               Inr (gtk_source_view_get_visual_column buf (l, p) + 1)
          then adjust_alignment sub buf (l + 1, 0) = Inr (buf[l + 1 := buf1 ! (l + 1)], (l + 1, 0))
          else buf1 ! (l + 1) = buf ! (l + 1)"
    unfolding b .
  from a b c' show ?thesis by (intro conjI)
qed

theorem anchor_column_after_parenthesis_witness:
  "gtk_source_search_context_forward function_call_buf (search_text function_call_sub) (0, 0) =
     Some ((0, 0), (0, 13)) \<and>
   function_call_buf ! 0 ! 14 = LPAREN \<and>
   gtk_source_view_get_visual_column function_call_buf (0, 14) = 14 \<and>
   get_parenthesis_column function_call_buf (0, 13) = 15 \<and>
   get_text_start_column function_call_buf (0 + 1, 0) = Inr 15 \<and>
   adjust_alignment function_call_sub function_call_buf (0 + 1, 0) =
     Inr (function_call_buf[0 + 1 := codepoints ''                        param2,''], (0 + 1, 0))"
proof -
  let ?buf1 = "map codepoints
            [''another_beautiful_name (param1,'',
             ''                        param2,'',
             ''                        param3);'',
             [],
             ''               param4'']"
  have h1: "gtk_source_search_context_forward function_call_buf (search_text function_call_sub)
      (0, 0) = Some ((0, 0), (0, 13))"
    by (simp add: function_call_sub_def function_call_buf_def eval_search)
  have h3: "(13::nat) \<le> 14" by simp
  have h4: "14 < length (function_call_buf ! 0)" by (simp add: function_call_buf_def codepoints_def)
  have h5: "function_call_buf ! 0 ! 14 = LPAREN" by (simp add: function_call_buf_def codepoints_def)
  have h6: "\<forall>i. 13 \<le> i \<and> i < 14 \<longrightarrow> function_call_buf ! 0 ! i \<noteq> LPAREN"
  proof (intro allI impI)
    fix i :: nat assume "13 \<le> i \<and> i < 14"
    then have "i = 13" by simp
    then show "function_call_buf ! 0 ! i \<noteq> LPAREN"
      by (simp add: function_call_buf_def codepoints_def)
  qed
  have h7: "replace function_call_sub function_call_buf (0, 0) (0, 13) = Inr (?buf1, (0, 22))"
    by (subst replace_eq)
       (simp_all add: Let_def function_call_sub_def function_call_buf_def eval_search eval_column eval_lines)
  have h8: "0 + 1 < length function_call_buf" by (simp add: function_call_buf_def)
  note t = anchor_column_after_parenthesis [OF h1 h3 h4 h5 h6 h7 h8]
  have v: "gtk_source_view_get_visual_column function_call_buf (0, 14) = 14"
    by (simp add: function_call_buf_def eval_column)
  from t [THEN conjunct2, THEN conjunct1] v
  have pc: "get_parenthesis_column function_call_buf (0, 13) = 15" by simp
  have ts: "get_text_start_column function_call_buf (0 + 1, 0) = Inr 15"
    by (simp add: function_call_buf_def eval_adjust)
  have cond: "get_text_start_column function_call_buf (0 + 1, 0) =
      Inr (gtk_source_view_get_visual_column function_call_buf (0, 14) + 1)"
    by (simp only: ts v) simp
  from t [THEN conjunct2, THEN conjunct2]
  have "adjust_alignment function_call_sub function_call_buf (0 + 1, 0) =
     Inr (function_call_buf[0 + 1 := ?buf1 ! (0 + 1)], (0 + 1, 0))"
    by (simp only: if_P [OF cond])
  then have "adjust_alignment function_call_sub function_call_buf (0 + 1, 0) =
     Inr (function_call_buf[0 + 1 := codepoints ''                        param2,''], (0 + 1, 0))"
    by simp
  with h1 h5 v pc ts show ?thesis by (simp only: simp_thms)
qed

end
